theory Spec2Isabelle
  imports Main "HOL-Library.Word" "HOL-Library.AList"
begin

unbundle bit_operations_syntax

section \<open>Data model of the compute scheduler\<close>

text \<open>
  Modelled from the spec: the declaration of the shared \<open>Result\<close> enumeration used by
  the scheduler is not among the sources. The scheduler source names \<open>SUCCESS\<close>,
  \<open>TIMEOUT\<close>, \<open>SKIP\<close>, \<open>ERROR\<close> and \<open>FATAL\<close>; the spec's result taxonomy adds the
  invariant-violation codes.
\<close>

datatype Result = SUCCESS | TIMEOUT | SKIP | ERROR | FATAL | Cycle | StaleIO | InplaceAliasing

text \<open>
  Modelled from the spec: the \<open>Device\<close> enumeration and its \<open>operator&\<close> are declared
  outside the sources. The spec lists the tags \<open>CPU\<close>, \<open>CUDA\<close>, \<open>Metal\<close>, \<open>Vulkan\<close> and
  \<open>None\<close> and compares them by equality; the scheduler combines them with a bitwise and,
  so they are bit flags, one bit per tag, \<open>Device::None\<close> included (the loop that splits the
  order into runs pushes its first entry because \<open>None\<close> has a bit of its own).
\<close>

datatype Device = Device_None | CPU | CUDA | Metal | Vulkan

fun device_bits :: "Device \<Rightarrow> 8 word" where
  "device_bits Device_None = 1"
| "device_bits CPU = 2"
| "device_bits CUDA = 4"
| "device_bits Metal = 8"
| "device_bits Vulkan = 16"

text \<open>
  A port descriptor (\<open>Parser::Record\<close>). The scheduler reads two of its fields: the content
  hash \<open>meta.hash\<close> and the hash of its locale, \<open>meta.locale.hash()\<close>; the remaining
  fields are only logged.
\<close>

record Parser_Record =
  hash :: "64 word"
  locale_hash :: "64 word"

text \<open>
  A \<open>RecordMap\<close> maps pin names to records. It is kept as an association list whose order
  is the iteration order of the container; a well-formed one has no repeated key.
\<close>

type_synonym RecordMap = "(string \<times> Parser_Record) list"

text \<open>
  The active maps hold pointers into \<open>inputMap\<close> and \<open>outputMap\<close>; the scheduler never
  writes the records they point to, so the model stores the record itself. (Registering a
  module again under a name already in use replaces the maps the old pointers refer to;
  the model keeps the records stored before.)
\<close>

record ComputeModuleState =
  module :: nat
  device :: Device
  inputMap :: RecordMap
  outputMap :: RecordMap
  activeInputs :: RecordMap
  activeOutputs :: RecordMap
  clusterId :: "64 word"

record PresentModuleState =
  present_module :: nat
  present_inputMap :: RecordMap
  present_outputMap :: RecordMap

text \<open>
  Modelled from the spec: the per-device executor (\<open>Graph\<close>) is an external collaborator;
  its setters accumulate bookkeeping sets and \<open>setModule\<close> appends to the ordered run.
\<close>

record Graph =
  graph_device :: Device
  wiredInputs :: "64 word set"
  wiredOutputs :: "64 word set"
  externallyWiredInputs :: "64 word set"
  externallyWiredOutputs :: "64 word set"
  graph_modules :: "nat list"

text \<open>
  The members of the scheduler that the phases read and write. The four module maps are
  \<open>unordered_map\<close>s keyed by \<open>locale.shash()\<close>, kept as association lists whose order is
  the iteration order of the container. The mutex and the flags that \<open>lockState\<close>,
  \<open>compute\<close> and \<open>present\<close> synchronise on have a model of their own, in the section
  on synchronisation; the operations on the data are modelled one at a time.
\<close>

record Scheduler =
  running :: bool
  computeModuleStates :: "(string \<times> ComputeModuleState) list"
  presentModuleStates :: "(string \<times> PresentModuleState) list"
  validComputeModuleStates :: "(string \<times> ComputeModuleState) list"
  validPresentModuleStates :: "(string \<times> PresentModuleState) list"
  executionOrder :: "string list"
  deviceExecutionOrder :: "(Device \<times> string list) list"
  graphs :: "Graph list"

section \<open>Phase 1: pruning inactive ports (\<open>removeInactive\<close>)\<close>

text \<open>
  The local \<open>valid\<close> is an \<open>unordered_map<U64, U64>\<close> read and written through
  \<open>operator[]\<close>, which yields 0 for a key that was never written: a total function.
  \<open>valid[meta.hash]++\<close> is guarded by \<open>if (meta.hash)\<close>.
\<close>

definition countRecord :: "Parser_Record \<Rightarrow> (64 word \<Rightarrow> 64 word) \<Rightarrow> (64 word \<Rightarrow> 64 word)" where
  "countRecord meta valid =
     (if hash meta \<noteq> 0 then valid(hash meta := valid (hash meta) + 1) else valid)"

definition countModule :: "ComputeModuleState \<Rightarrow> (64 word \<Rightarrow> 64 word) \<Rightarrow> (64 word \<Rightarrow> 64 word)" where
  "countModule state valid =
     fold countRecord (map snd (outputMap state))
       (fold countRecord (map snd (inputMap state)) valid)"

definition countHashes :: "(string \<times> ComputeModuleState) list \<Rightarrow> 64 word \<Rightarrow> 64 word" where
  "countHashes states = fold (\<lambda>(name, state). countModule state) states (\<lambda>h. 0)"

text \<open>
  \<open>state.activeInputs[inputName] = &meta\<close> for every entry whose count exceeds one. The
  active map is written into, never cleared.
\<close>

definition promote :: "(64 word \<Rightarrow> 64 word) \<Rightarrow> RecordMap \<Rightarrow> RecordMap \<Rightarrow> RecordMap" where
  "promote valid recordMap active =
     fold (\<lambda>(pin, meta) a. if 1 < valid (hash meta) then AList.update pin meta a else a)
       recordMap active"

definition generateIO :: "(64 word \<Rightarrow> 64 word) \<Rightarrow> ComputeModuleState \<Rightarrow> ComputeModuleState" where
  "generateIO valid state =
     state\<lparr>activeInputs := promote valid (inputMap state) (activeInputs state),
           activeOutputs := promote valid (outputMap state) (activeOutputs state)\<rparr>"

definition isStale :: "ComputeModuleState \<Rightarrow> bool" where
  "isStale state = (activeInputs state = [] \<and> activeOutputs state = [])"

definition staleModules :: "(string \<times> ComputeModuleState) list \<Rightarrow> string list" where
  "staleModules states = map fst (filter (\<lambda>(name, state). isStale state) states)"

text \<open>Membership in an \<open>unordered_set\<close> kept as a list (\<open>contains\<close>, \<open>find\<close>).\<close>

primrec contains :: "'a list \<Rightarrow> 'a \<Rightarrow> bool" where
  "contains [] x = False"
| "contains (y # ys) x = (if y = x then True else contains ys x)"

text \<open>\<open>target[name] = state\<close> for every entry whose name is not stale.\<close>

definition keepValid :: "string list \<Rightarrow> (string \<times> 'a) list \<Rightarrow> (string \<times> 'a) list" where
  "keepValid stale states =
     fold (\<lambda>(name, state) acc. if contains stale name then acc else AList.update name state acc)
       states []"

definition removeInactive :: "Scheduler \<Rightarrow> Result \<times> Scheduler" where
  "removeInactive s =
     (let valid = countHashes (computeModuleStates s);
          states = map (\<lambda>(name, state). (name, generateIO valid state)) (computeModuleStates s);
          stale = staleModules states
      in (SUCCESS,
          s\<lparr>computeModuleStates := states,
            validComputeModuleStates := keepValid stale states,
            validPresentModuleStates := keepValid stale (presentModuleStates s)\<rparr>))"

subsection \<open>Vocabulary for statements about pruning\<close>

text \<open>Every record hash seen on an input or output port of a compute module, with repetition.\<close>

definition portHashes :: "(string \<times> ComputeModuleState) list \<Rightarrow> 64 word list" where
  "portHashes states =
     concat (map (\<lambda>(name, state).
       map (hash \<circ> snd) (inputMap state) @ map (hash \<circ> snd) (outputMap state)) states)"

text \<open>The representation invariant of the record maps: pin names are unique per map.\<close>

definition wellFormedMaps :: "(string \<times> ComputeModuleState) list \<Rightarrow> bool" where
  "wellFormedMaps states =
     list_all (\<lambda>(name, state).
       distinct (map fst (inputMap state)) \<and> distinct (map fst (outputMap state))) states"

text \<open>A port is connected when its record hash is not zero and occurs more than once.\<close>

definition connected :: "(string \<times> ComputeModuleState) list \<Rightarrow> string \<times> Parser_Record \<Rightarrow> bool" where
  "connected states = (\<lambda>(pin, meta). hash meta \<noteq> 0 \<and> 1 < count_list (portHashes states) (hash meta))"

text \<open>
  The active maps are maps, and every port that is active already is a connected port of
  the module's input or output map. This holds in particular when no port is active yet.
\<close>

definition activeWithin :: "(string \<times> ComputeModuleState) list \<Rightarrow> RecordMap \<Rightarrow> RecordMap \<Rightarrow> bool" where
  "activeWithin states active recordMap =
     (distinct (map fst active)
      \<and> list_all (\<lambda>port. contains recordMap port \<and> connected states port) active)"

definition activePortsConnected :: "(string \<times> ComputeModuleState) list \<Rightarrow> bool" where
  "activePortsConnected states =
     list_all (\<lambda>(name, state).
       activeWithin states (activeInputs state) (inputMap state)
       \<and> activeWithin states (activeOutputs state) (outputMap state)) states"

section \<open>Phase 2: dependency order with device affinity (\<open>arrangeDependencyOrder\<close>)\<close>

text \<open>
  \<open>validComputeModuleStates[name]\<close>: \<open>operator[]\<close> yields the stored state, or a
  value-initialised one for a name that is not a key. In the loops below every name that
  reaches it in a defined run is a key of the map.
\<close>

definition defaultComputeState :: ComputeModuleState where
  "defaultComputeState =
     \<lparr>module = 0, device = Device_None, inputMap = [], outputMap = [],
      activeInputs = [], activeOutputs = [], clusterId = 0\<rparr>"

definition lookupState :: "(string \<times> ComputeModuleState) list \<Rightarrow> string \<Rightarrow> ComputeModuleState" where
  "lookupState valid name = (case map_of valid name of Some state \<Rightarrow> state | None \<Rightarrow> defaultComputeState)"

text \<open>\<open>queue.emplace(name)\<close> on an \<open>unordered_set\<close> kept as a list without repetition.\<close>

definition emplace :: "'a \<Rightarrow> 'a list \<Rightarrow> 'a list" where
  "emplace x queue = (if contains queue x then queue else queue @ [x])"

definition initialQueue :: "(string \<times> ComputeModuleState) list \<Rightarrow> string list" where
  "initialQueue valid =
     fold (\<lambda>(name, state) queue.
             if length (activeInputs state) = 0 then emplace name queue else queue) valid []"

text \<open>\<open>degrees\<close> is an \<open>unordered_map<std::string, U64>\<close> accessed through \<open>operator[]\<close>.\<close>

definition initialDegrees :: "(string \<times> ComputeModuleState) list \<Rightarrow> string \<Rightarrow> 64 word" where
  "initialDegrees valid =
     fold (\<lambda>(name, state) degrees. degrees(name := of_nat (length (activeInputs state))))
       valid (\<lambda>name. 0)"

text \<open>
  \<open>moduleInputCache[hash]\<close> lists the consumers of a locale hash, once per consuming pin;
  \<open>moduleOutputCache[hash]\<close> is the last module seen producing it, the empty string when
  there is none.
\<close>

definition moduleInputCache :: "(string \<times> ComputeModuleState) list \<Rightarrow> 64 word \<Rightarrow> string list" where
  "moduleInputCache valid =
     fold (\<lambda>(name, state) cache.
             fold (\<lambda>(pin, meta) c. c(locale_hash meta := c (locale_hash meta) @ [name]))
               (activeInputs state) cache)
       valid (\<lambda>h. [])"

definition moduleOutputCache :: "(string \<times> ComputeModuleState) list \<Rightarrow> 64 word \<Rightarrow> string" where
  "moduleOutputCache valid =
     fold (\<lambda>(name, state) cache.
             fold (\<lambda>(pin, meta) c. c(locale_hash meta := name)) (activeOutputs state) cache)
       valid (\<lambda>h. [])"

definition moduleEdgesCache :: "(string \<times> ComputeModuleState) list \<Rightarrow> string \<Rightarrow> string list" where
  "moduleEdgesCache valid =
     fold (\<lambda>(name, state) cache.
             cache(name :=
               fold (\<lambda>(pin, meta) edges. fold emplace (moduleInputCache valid (locale_hash meta)) edges)
                 (activeOutputs state)
                 (fold (\<lambda>(pin, meta) edges. emplace (moduleOutputCache valid (locale_hash meta)) edges)
                    (activeInputs state) (cache name))))
       valid (\<lambda>name. [])"

subsection \<open>The primitive execution order\<close>

text \<open>
  The \<open>for\<close> loop over the ready queue. It returns the device it leaves in \<open>lastDevice\<close>
  and \<open>nextName\<close>, which is the empty string when no module was chosen.
\<close>

fun scanQueue :: "(string \<Rightarrow> Device) \<Rightarrow> Device \<Rightarrow> string list \<Rightarrow> Device \<times> string" where
  "scanQueue deviceOf lastDevice [] = (lastDevice, [])"
| "scanQueue deviceOf lastDevice (name # rest) =
     (let device = deviceOf name;
          lastDevice' = (if lastDevice = Device_None then device else lastDevice)
      in if device = lastDevice' then (device, name)
         else scanQueue deviceOf lastDevice' rest)"

text \<open>\<open>if (--degrees[inputModuleName] == 0) queue.emplace(inputModuleName)\<close>\<close>

definition decrement :: "string \<Rightarrow> (string \<Rightarrow> 64 word) \<times> string list \<Rightarrow> (string \<Rightarrow> 64 word) \<times> string list" where
  "decrement name = (\<lambda>(degrees, queue).
     (let d = degrees name - 1
      in (degrees(name := d), if d = 0 then emplace name queue else queue)))"

definition releaseConsumers ::
  "(64 word \<Rightarrow> string list) \<Rightarrow> RecordMap \<Rightarrow> (string \<Rightarrow> 64 word) \<times> string list
     \<Rightarrow> (string \<Rightarrow> 64 word) \<times> string list" where
  "releaseConsumers inputCache outputs =
     fold (\<lambda>(pin, meta). fold decrement (inputCache (locale_hash meta))) outputs"

text \<open>
  The state of the \<open>while (!queue.empty())\<close> loop. The iteration order of the ready queue, an
  \<open>unordered_set\<close>, is not fixed by the language: \<open>queueOrder k queue\<close> is the order in which the
  \<open>k\<close>-th pass iterates over it, a parameter of the model.
\<close>

record OrderingLoop =
  queue :: "string list"
  degrees :: "string \<Rightarrow> 64 word"
  lastDevice :: Device
  primitiveOrder :: "string list"
  passes :: nat

definition orderStep ::
  "(nat \<Rightarrow> string list \<Rightarrow> string list) \<Rightarrow> (string \<times> ComputeModuleState) list \<Rightarrow> OrderingLoop \<Rightarrow> OrderingLoop" where
  "orderStep queueOrder valid st =
     (let (device, nextName) =
            scanQueue (\<lambda>name. device (lookupState valid name)) (lastDevice st)
              (queueOrder (passes st) (queue st))
      in if nextName = []
         then st\<lparr>lastDevice := Device_None, passes := Suc (passes st)\<rparr>
         else
           (let (degrees', queue') =
                  releaseConsumers (moduleInputCache valid)
                    (activeOutputs (lookupState valid nextName))
                    (degrees st, removeAll nextName (queue st))
            in \<lparr>queue = queue', degrees = degrees', lastDevice = device,
                primitiveOrder = primitiveOrder st @ [nextName], passes = Suc (passes st)\<rparr>))"

partial_function (option) orderingLoop ::
  "(nat \<Rightarrow> string list \<Rightarrow> string list) \<Rightarrow> (string \<times> ComputeModuleState) list \<Rightarrow> OrderingLoop \<Rightarrow> OrderingLoop option" where
  "orderingLoop queueOrder valid st =
     (if queue st = [] then Some st
      else orderingLoop queueOrder valid (orderStep queueOrder valid st))"

definition initialOrdering :: "(string \<times> ComputeModuleState) list \<Rightarrow> OrderingLoop" where
  "initialOrdering valid =
     \<lparr>queue = initialQueue valid, degrees = initialDegrees valid, lastDevice = Device_None,
      primitiveOrder = [], passes = 0\<rparr>"

subsection \<open>Cluster assignment\<close>

text \<open>
  The depth-first walk from one unvisited module. The stack is a list with its top first.
  Writing \<open>clusterId\<close> through \<open>operator[]\<close> for a name that is not a key would insert into
  the map that the enclosing loop is iterating over: such a run has no defined result.
\<close>

definition setCluster :: "string \<Rightarrow> 64 word \<Rightarrow> (string \<times> ComputeModuleState) list \<Rightarrow> (string \<times> ComputeModuleState) list option" where
  "setCluster name cluster valid =
     (case map_of valid name of
        None \<Rightarrow> None
      | Some state \<Rightarrow> Some (AList.update name (state\<lparr>clusterId := cluster\<rparr>) valid))"

partial_function (option) walkCluster ::
  "(string \<Rightarrow> string list) \<Rightarrow> 64 word \<Rightarrow> string list \<Rightarrow> string list \<Rightarrow> (string \<times> ComputeModuleState) list
     \<Rightarrow> (string list \<times> (string \<times> ComputeModuleState) list) option" where
  "walkCluster edges cluster stack visited valid =
     (case stack of
        [] \<Rightarrow> Some (visited, valid)
      | current # rest \<Rightarrow>
          (let stack' = fold (\<lambda>neighbor st. if contains visited neighbor then st else neighbor # st)
                          (edges current) rest
           in if contains visited current then walkCluster edges cluster stack' visited valid
              else (case setCluster current cluster valid of
                      None \<Rightarrow> None
                    | Some valid' \<Rightarrow> walkCluster edges cluster stack' (current # visited) valid')))"

fun assignClusters ::
  "(string \<Rightarrow> string list) \<Rightarrow> string list \<Rightarrow> 64 word \<Rightarrow> string list \<Rightarrow> (string \<times> ComputeModuleState) list
     \<Rightarrow> (string \<times> ComputeModuleState) list option" where
  "assignClusters edges [] clusterCount visited valid = Some valid"
| "assignClusters edges (name # names) clusterCount visited valid =
     (if contains visited name then assignClusters edges names clusterCount visited valid
      else (case walkCluster edges clusterCount [name] visited valid of
              None \<Rightarrow> None
            | Some (visited', valid') \<Rightarrow>
                assignClusters edges names (clusterCount + 1) visited' valid'))"

subsection \<open>Splitting the order into device runs\<close>

text \<open>
  A new entry is pushed when \<open>(currentDevice & lastDevice) != lastDevice\<close> or the cluster
  changes (\<open>previousDevice\<close> and \<open>previousCluster\<close> stand for the source's \<open>lastDevice\<close> and
  \<open>lastCluster\<close>); the name is then appended to \<open>deviceExecutionOrder.back()\<close>, which is undefined on
  an empty vector.
\<close>

fun splitRuns ::
  "(string \<times> ComputeModuleState) list \<Rightarrow> Device \<Rightarrow> 64 word \<Rightarrow> string list
     \<Rightarrow> (Device \<times> string list) list \<Rightarrow> (Device \<times> string list) list option" where
  "splitRuns valid previousDevice previousCluster [] runs = Some runs"
| "splitRuns valid previousDevice previousCluster (name # names) runs =
     (let state = lookupState valid name;
          currentCluster = clusterId state;
          currentDevice = device state;
          runs' = (if device_bits currentDevice AND device_bits previousDevice \<noteq> device_bits previousDevice
                      \<or> currentCluster \<noteq> previousCluster
                   then runs @ [(currentDevice, [])] else runs)
      in if runs' = [] then None
         else splitRuns valid currentDevice currentCluster names
                (butlast runs' @ [(fst (last runs'), snd (last runs') @ [name])]))"

subsection \<open>The whole phase\<close>

text \<open>
  The result is \<open>None\<close> when the source does not return a defined result: the ordering loop
  or a cluster walk runs forever, or one of the undefined accesses above is made.
\<close>

definition arrangeDependencyOrder ::
  "(nat \<Rightarrow> string list \<Rightarrow> string list) \<Rightarrow> Scheduler \<Rightarrow> (Result \<times> Scheduler) option" where
  "arrangeDependencyOrder queueOrder s =
     (let valid = validComputeModuleStates s
      in case orderingLoop queueOrder valid (initialOrdering valid) of
           None \<Rightarrow> None
         | Some st \<Rightarrow>
             (let s1 = s\<lparr>executionOrder := primitiveOrder st, deviceExecutionOrder := []\<rparr>
              in if length (primitiveOrder st) \<noteq> length valid then Some (FATAL, s1)
                 else (case assignClusters (moduleEdgesCache valid) (map fst valid) 0 [] valid of
                         None \<Rightarrow> None
                       | Some valid' \<Rightarrow>
                           (case splitRuns valid' Device_None 0 (primitiveOrder st) [] of
                              None \<Rightarrow> None
                            | Some runs \<Rightarrow>
                                Some (SUCCESS,
                                  s1\<lparr>validComputeModuleStates := valid',
                                     deviceExecutionOrder := runs\<rparr>)))))"


declare orderingLoop.simps [code] walkCluster.simps [code]

subsection \<open>Vocabulary for statements about the dependency order\<close>

text \<open>Every pass over the ready queue visits exactly the names that are in it.\<close>

definition queueOrderOK :: "(nat \<Rightarrow> string list \<Rightarrow> string list) \<Rightarrow> bool" where
  "queueOrderOK queueOrder = (\<forall>k q. set (queueOrder k q) = set q)"

text \<open>
  The representation invariant of the module map: names are unique. The ordering loop
  uses the empty string for "no module chosen", so module names are taken to be non-empty.
\<close>

definition namedModules :: "(string \<times> ComputeModuleState) list \<Rightarrow> bool" where
  "namedModules valid = (distinct (map fst valid) \<and> list_all (\<lambda>(name, state). name \<noteq> []) valid)"

definition inDegree :: "(string \<times> ComputeModuleState) list \<Rightarrow> string \<Rightarrow> nat" where
  "inDegree valid name = length (activeInputs (lookupState valid name))"

text \<open>The names whose degree is decremented, in order, when \<open>name\<close> is put into the order.\<close>

definition targets :: "(string \<times> ComputeModuleState) list \<Rightarrow> string \<Rightarrow> string list" where
  "targets valid name =
     concat (map (\<lambda>(pin, meta). moduleInputCache valid (locale_hash meta))
               (activeOutputs (lookupState valid name)))"

definition released :: "(string \<times> ComputeModuleState) list \<Rightarrow> string list \<Rightarrow> string \<Rightarrow> nat" where
  "released valid order name = count_list (concat (map (targets valid) order)) name"

text \<open>
  The counters are 64 bits wide: no module has \<open>2 ^ 64\<close> active inputs, and scheduling every
  module once decrements fewer than \<open>2 ^ 64\<close> times.
\<close>

definition releaseBound :: "(string \<times> ComputeModuleState) list \<Rightarrow> bool" where
  "releaseBound valid =
     (list_all (\<lambda>(name, state). length (activeInputs state) < 2 ^ 64) valid
      \<and> length (concat (map (targets valid) (map fst valid))) < 2 ^ 64)"

text \<open>The locale hashes of all active outputs; a locale hash has one producing port.\<close>

definition outputHashes :: "(string \<times> ComputeModuleState) list \<Rightarrow> 64 word list" where
  "outputHashes valid =
     concat (map (\<lambda>(name, state). map (locale_hash \<circ> snd) (activeOutputs state)) valid)"

definition singleProducer :: "(string \<times> ComputeModuleState) list \<Rightarrow> bool" where
  "singleProducer valid = distinct (outputHashes valid)"

definition produces :: "(string \<times> ComputeModuleState) list \<Rightarrow> string \<Rightarrow> 64 word \<Rightarrow> bool" where
  "produces valid name h =
     contains (map (locale_hash \<circ> snd) (activeOutputs (lookupState valid name))) h"

definition consumes :: "(string \<times> ComputeModuleState) list \<Rightarrow> string \<Rightarrow> 64 word \<Rightarrow> bool" where
  "consumes valid name h =
     contains (map (locale_hash \<circ> snd) (activeInputs (lookupState valid name))) h"

text \<open>
  The dependency edges of the active graph: \<open>(p, m)\<close> when an active output of \<open>p\<close> and an
  active input of \<open>m\<close> carry the same locale hash. The graph is cyclic when some module
  reaches itself along one or more edges.
\<close>

definition feeds :: "ComputeModuleState \<Rightarrow> ComputeModuleState \<Rightarrow> bool" where
  "feeds pstate mstate =
     list_ex (\<lambda>out. list_ex (\<lambda>inp. locale_hash (snd out) = locale_hash (snd inp))
                       (activeInputs mstate))
       (activeOutputs pstate)"

definition dependencyEdges :: "(string \<times> ComputeModuleState) list \<Rightarrow> (string \<times> string) list" where
  "dependencyEdges valid =
     map (\<lambda>((p, pstate), (m, mstate)). (p, m))
       (filter (\<lambda>((p, pstate), (m, mstate)). feeds pstate mstate) (List.product valid valid))"

definition cyclic :: "(string \<times> ComputeModuleState) list \<Rightarrow> bool" where
  "cyclic valid = (\<exists>m. (m, m) \<in> (set (dependencyEdges valid))\<^sup>+)"

text \<open>The invariant of the ordering loop.\<close>

definition orderingInvariant :: "(string \<times> ComputeModuleState) list \<Rightarrow> OrderingLoop \<Rightarrow> bool" where
  "orderingInvariant valid st =
     (distinct (queue st) \<and> distinct (primitiveOrder st)
      \<and> set (queue st) \<inter> set (primitiveOrder st) = {}
      \<and> (\<forall>name. degrees st name =
            of_nat (inDegree valid name) - of_nat (released valid (primitiveOrder st) name))
      \<and> (\<forall>name. (name \<in> set (queue st) \<union> set (primitiveOrder st)) =
            (name \<in> fst ` set valid
             \<and> inDegree valid name \<le> released valid (primitiveOrder st) name))
      \<and> (\<forall>k < length (primitiveOrder st).
            inDegree valid (primitiveOrder st ! k)
              \<le> released valid (take k (primitiveOrder st)) (primitiveOrder st ! k)))"

text \<open>
  What one pass of the ordering loop does: it either selects a module of the ready queue,
  which leaves the queue and is appended to the order, or it only resets \<open>lastDevice\<close>.
\<close>

definition selectsModule ::
  "(nat \<Rightarrow> string list \<Rightarrow> string list) \<Rightarrow> (string \<times> ComputeModuleState) list \<Rightarrow> OrderingLoop \<Rightarrow> bool" where
  "selectsModule queueOrder valid st =
     (\<exists>name. contains (queue st) name
        \<and> primitiveOrder (orderStep queueOrder valid st) = primitiveOrder st @ [name]
        \<and> \<not> contains (queue (orderStep queueOrder valid st)) name)"

definition resetsDevice ::
  "(nat \<Rightarrow> string list \<Rightarrow> string list) \<Rightarrow> (string \<times> ComputeModuleState) list \<Rightarrow> OrderingLoop \<Rightarrow> bool" where
  "resetsDevice queueOrder valid st =
     (orderStep queueOrder valid st = st\<lparr>lastDevice := Device_None, passes := Suc (passes st)\<rparr>)"

text \<open>The state of the ordering loop after \<open>k\<close> passes.\<close>

definition orderingAfter ::
  "(nat \<Rightarrow> string list \<Rightarrow> string list) \<Rightarrow> (string \<times> ComputeModuleState) list \<Rightarrow> nat \<Rightarrow> OrderingLoop" where
  "orderingAfter queueOrder valid k = ((orderStep queueOrder valid) ^^ k) (initialOrdering valid)"

section \<open>Phases 5 to 8: validity check and executor assembly\<close>

text \<open>
  \<open>checkSequenceValidity\<close> gathers the in-place modules and logs a warning when a branched
  tensor reaches one of them. It writes no member and every path returns \<open>SUCCESS\<close> (the
  \<open>return Result::ERROR\<close> is commented out).
\<close>

definition checkSequenceValidity :: "Scheduler \<Rightarrow> Result \<times> Scheduler" where
  "checkSequenceValidity s = (SUCCESS, s)"

text \<open>Modelled from the spec: \<open>NewGraph(device)\<close> makes a fresh executor with empty bookkeeping.\<close>

definition NewGraph :: "Device \<Rightarrow> Graph" where
  "NewGraph d =
     \<lparr>graph_device = d, wiredInputs = {}, wiredOutputs = {},
      externallyWiredInputs = {}, externallyWiredOutputs = {}, graph_modules = []\<rparr>"

definition setWiredInput :: "64 word \<Rightarrow> Graph \<Rightarrow> Graph" where
  "setWiredInput h graph = graph\<lparr>wiredInputs := insert h (wiredInputs graph)\<rparr>"

definition setWiredOutput :: "64 word \<Rightarrow> Graph \<Rightarrow> Graph" where
  "setWiredOutput h graph = graph\<lparr>wiredOutputs := insert h (wiredOutputs graph)\<rparr>"

definition setExternallyWiredInput :: "64 word \<Rightarrow> Graph \<Rightarrow> Graph" where
  "setExternallyWiredInput h graph =
     graph\<lparr>externallyWiredInputs := insert h (externallyWiredInputs graph)\<rparr>"

definition setExternallyWiredOutput :: "64 word \<Rightarrow> Graph \<Rightarrow> Graph" where
  "setExternallyWiredOutput h graph =
     graph\<lparr>externallyWiredOutputs := insert h (externallyWiredOutputs graph)\<rparr>"

definition setModule :: "nat \<Rightarrow> Graph \<Rightarrow> Graph" where
  "setModule m graph = graph\<lparr>graph_modules := graph_modules graph @ [m]\<rparr>"

text \<open>The body of the loop over the block names of one device run.\<close>

definition wireBlock :: "ComputeModuleState \<Rightarrow> Graph \<Rightarrow> Graph" where
  "wireBlock state graph =
     setModule (module state)
       (fold (\<lambda>(pin, meta). setWiredOutput (locale_hash meta)) (activeOutputs state)
          (fold (\<lambda>(pin, meta). setWiredInput (locale_hash meta)) (activeInputs state) graph))"

definition instantiateGraph :: "(string \<times> ComputeModuleState) list \<Rightarrow> Device \<times> string list \<Rightarrow> Graph" where
  "instantiateGraph valid = (\<lambda>(d, blocksNames).
     fold (\<lambda>blockName. wireBlock (lookupState valid blockName)) blocksNames (NewGraph d))"

text \<open>
  The dependency list between graphs. \<open>previousGraph\<close> is assigned once, when it is still
  null, to the first graph; the loop body never assigns it again. It shares the object with
  the first element of \<open>graphs\<close>, which therefore receives every externally wired output.
  The common items are the intersection of the two wired sets.
\<close>

fun linkGraphs :: "Graph \<Rightarrow> Graph list \<Rightarrow> Graph \<times> Graph list" where
  "linkGraphs previousGraph [] = (previousGraph, [])"
| "linkGraphs previousGraph (currentGraph # rest) =
     (let commonItems = wiredOutputs previousGraph \<inter> wiredInputs currentGraph;
          previousGraph' = previousGraph
            \<lparr>externallyWiredOutputs := externallyWiredOutputs previousGraph \<union> commonItems\<rparr>;
          currentGraph' = currentGraph
            \<lparr>externallyWiredInputs := externallyWiredInputs currentGraph \<union> commonItems\<rparr>;
          (first, rest') = linkGraphs previousGraph' rest
      in (first, currentGraph' # rest'))"

definition createExecutionGraphs :: "Scheduler \<Rightarrow> Result \<times> Scheduler" where
  "createExecutionGraphs s =
     (SUCCESS,
      s\<lparr>graphs :=
          (case map (instantiateGraph (validComputeModuleStates s)) (deviceExecutionOrder s) of
             [] \<Rightarrow> []
           | first # rest \<Rightarrow> (let (first', rest') = linkGraphs first rest in first' # rest'))\<rparr>)"

section \<open>The public operations\<close>

text \<open>
  What the scheduler does not decide itself: the results of the executors' \<open>destroy\<close>,
  \<open>create\<close>, \<open>computeReady\<close> (which may change from one poll to the next) and \<open>compute\<close>, and
  the iteration order of the ready queue.
\<close>

record Environment =
  graphDestroy :: "Graph \<Rightarrow> Result"
  graphCreate :: "Graph \<Rightarrow> Result"
  graphComputeReady :: "nat \<Rightarrow> Graph \<Rightarrow> Result"
  graphCompute :: "Graph \<Rightarrow> Result"
  readyQueueOrder :: "nat \<Rightarrow> string list \<Rightarrow> string list"

text \<open>
  Modelled from the spec: \<open>JST_CHECK\<close> is defined outside the sources; it returns from the
  enclosing function with the result of its argument unless that result is \<open>SUCCESS\<close>.
  \<open>firstFailure\<close> is a loop whose body is a \<open>JST_CHECK\<close>.
\<close>

fun firstFailure :: "('a \<Rightarrow> Result) \<Rightarrow> 'a list \<Rightarrow> Result" where
  "firstFailure f [] = SUCCESS"
| "firstFailure f (x # xs) = (if f x \<noteq> SUCCESS then f x else firstFailure f xs)"

text \<open>
  "Process modules into graph" and "Initialize graphs": the tail that the lambdas of
  \<open>addModule\<close> and \<open>removeModule\<close> share.
\<close>

definition rebuild :: "Environment \<Rightarrow> Scheduler \<Rightarrow> (Result \<times> Scheduler) option" where
  "rebuild env s =
     (let (r1, s1) = removeInactive s
      in if r1 \<noteq> SUCCESS then Some (r1, s1)
         else (case arrangeDependencyOrder (readyQueueOrder env) s1 of
                 None \<Rightarrow> None
               | Some (r2, s2) \<Rightarrow>
                   if r2 \<noteq> SUCCESS then Some (r2, s2)
                   else (let (r3, s3) = checkSequenceValidity s2
                         in if r3 \<noteq> SUCCESS then Some (r3, s3)
                            else (let (r4, s4) = createExecutionGraphs s3
                                  in if r4 \<noteq> SUCCESS then Some (r4, s4)
                                     else Some (firstFailure (graphCreate env) (graphs s4), s4)))))"

text \<open>
  \<open>states[locale.shash()].field = ...\<close>: \<open>operator[]\<close> makes a value-initialised entry for a
  new name and keeps the other fields of an existing one.
\<close>

definition registerCompute ::
  "string \<Rightarrow> nat \<Rightarrow> Device \<Rightarrow> RecordMap \<Rightarrow> RecordMap
     \<Rightarrow> (string \<times> ComputeModuleState) list \<Rightarrow> (string \<times> ComputeModuleState) list" where
  "registerCompute name m d inputs outputs states =
     AList.update name
       ((lookupState states name)\<lparr>module := m, device := d, inputMap := inputs, outputMap := outputs\<rparr>)
       states"

definition registerPresent ::
  "string \<Rightarrow> nat \<Rightarrow> RecordMap \<Rightarrow> RecordMap
     \<Rightarrow> (string \<times> PresentModuleState) list \<Rightarrow> (string \<times> PresentModuleState) list" where
  "registerPresent name m inputs outputs states =
     AList.update name \<lparr>present_module = m, present_inputMap = inputs, present_outputMap = outputs\<rparr> states"

definition registerModule ::
  "string \<Rightarrow> Device \<Rightarrow> RecordMap \<Rightarrow> RecordMap \<Rightarrow> nat option \<Rightarrow> nat option \<Rightarrow> Scheduler \<Rightarrow> Scheduler" where
  "registerModule name d inputs outputs compute present s =
     s\<lparr>presentModuleStates :=
         (case present of
            None \<Rightarrow> presentModuleStates s
          | Some p \<Rightarrow> registerPresent name p inputs outputs (presentModuleStates s)),
       computeModuleStates :=
         (case compute of
            None \<Rightarrow> computeModuleStates s
          | Some c \<Rightarrow> registerCompute name c d inputs outputs (computeModuleStates s))\<rparr>"

text \<open>
  \<open>addModule\<close>. \<open>name\<close> is \<open>locale.shash()\<close> and \<open>d\<close> is \<open>module->device()\<close>; \<open>compute\<close> and
  \<open>present\<close> are the two capabilities, absent when the pointer is null. \<open>lockState\<close> runs
  the lambda between raising and clearing the halt and sync flags and returns its result;
  with one thread that is the result of the lambda, here \<open>addModuleLocked\<close> (and
  \<open>removeModuleLocked\<close> below).
\<close>

definition addModuleLocked ::
  "Environment \<Rightarrow> string \<Rightarrow> Device \<Rightarrow> RecordMap \<Rightarrow> RecordMap \<Rightarrow> nat option \<Rightarrow> nat option
     \<Rightarrow> Scheduler \<Rightarrow> (Result \<times> Scheduler) option" where
  "addModuleLocked env name d inputs outputs compute present s =
     (let destroyed = firstFailure (graphDestroy env) (graphs s)
      in if destroyed \<noteq> SUCCESS then Some (destroyed, s)
         else rebuild env (registerModule name d inputs outputs compute present s))"

definition addModule ::
  "Environment \<Rightarrow> string \<Rightarrow> Device \<Rightarrow> RecordMap \<Rightarrow> RecordMap \<Rightarrow> nat option \<Rightarrow> nat option
     \<Rightarrow> Scheduler \<Rightarrow> (Result \<times> Scheduler) option" where
  "addModule env name d inputs outputs compute present s =
     addModuleLocked env name d inputs outputs compute present (s\<lparr>running := True\<rparr>)"

definition eraseModule :: "string \<Rightarrow> Scheduler \<Rightarrow> Scheduler" where
  "eraseModule name s =
     s\<lparr>presentModuleStates := AList.delete name (presentModuleStates s),
       computeModuleStates := AList.delete name (computeModuleStates s)\<rparr>"

definition removeModuleLocked :: "Environment \<Rightarrow> string \<Rightarrow> Scheduler \<Rightarrow> (Result \<times> Scheduler) option" where
  "removeModuleLocked env name s =
     (let destroyed = firstFailure (graphDestroy env) (graphs s)
      in if destroyed \<noteq> SUCCESS then Some (destroyed, s)
         else rebuild env (eraseModule name s))"

definition removeModule :: "Environment \<Rightarrow> string \<Rightarrow> Scheduler \<Rightarrow> (Result \<times> Scheduler) option" where
  "removeModule env name s =
     (if \<not> running s then Some (SUCCESS, s) else removeModuleLocked env name s)"

subsection \<open>The compute loop\<close>

text \<open>
  The readiness barrier: every executor is polled in turn; a \<open>TIMEOUT\<close> restarts the sweep
  from the first executor (the \<open>goto\<close>), any other failure is returned by \<open>JST_CHECK\<close>.
  \<open>polls\<close> counts the polls made so far. The barrier has no bound on its sweeps.
\<close>

partial_function (option) readinessBarrier ::
  "(nat \<Rightarrow> Graph \<Rightarrow> Result) \<Rightarrow> Graph list \<Rightarrow> Graph list \<Rightarrow> nat \<Rightarrow> Result option" where
  "readinessBarrier ready allGraphs remaining polls =
     (case remaining of
        [] \<Rightarrow> Some SUCCESS
      | graph # rest \<Rightarrow>
          (if ready polls graph = TIMEOUT
           then readinessBarrier ready allGraphs allGraphs (Suc polls)
           else if ready polls graph \<noteq> SUCCESS then Some (ready polls graph)
           else readinessBarrier ready allGraphs rest (Suc polls)))"

declare readinessBarrier.simps [code]

text \<open>
  The compute pass: executors run in order and the pass stops at the first result that is
  not \<open>SUCCESS\<close>. The second component lists the executors whose \<open>compute\<close> was invoked.
\<close>

fun computePass :: "(Graph \<Rightarrow> Result) \<Rightarrow> Graph list \<Rightarrow> Result \<times> Graph list" where
  "computePass run [] = (SUCCESS, [])"
| "computePass run (graph # rest) =
     (if run graph \<noteq> SUCCESS then (run graph, [graph])
      else (let (res, invoked) = computePass run rest in (res, graph # invoked)))"

text \<open>
  \<open>compute\<close>. \<open>halt\<close> is the value \<open>computeHalt.test()\<close> reads. The result is paired with the
  executors whose \<open>compute\<close> was invoked; it is \<open>None\<close> when the barrier polls forever.
\<close>

definition compute :: "Environment \<Rightarrow> bool \<Rightarrow> Scheduler \<Rightarrow> (Result \<times> Graph list) option" where
  "compute env halt s =
     (if graphs s = [] then Some (SUCCESS, [])
      else if halt then Some (SUCCESS, [])
      else (case readinessBarrier (graphComputeReady env) (graphs s) (graphs s) 0 of
              None \<Rightarrow> None
            | Some ready \<Rightarrow>
                if ready \<noteq> SUCCESS then Some (ready, [])
                else (let (res, invoked) = computePass (graphCompute env) (graphs s)
                      in if res = SUCCESS then Some (res, invoked)
                         else if res = TIMEOUT \<or> res = SKIP then Some (SUCCESS, invoked)
                         else Some (res, invoked))))"

subsection \<open>Vocabulary for statements about device runs\<close>

text \<open>
  Two modules belong to the same run when they agree on device and cluster. In a list of
  device runs no run is empty, every module of a run carries the device of its entry,
  neighbours inside a run agree on device and cluster, and the last module of an entry and
  the first module of the next entry differ in device or cluster.
\<close>

definition sameRun :: "(string \<times> ComputeModuleState) list \<Rightarrow> string \<Rightarrow> string \<Rightarrow> bool" where
  "sameRun valid a b =
     (device (lookupState valid a) = device (lookupState valid b)
      \<and> clusterId (lookupState valid a) = clusterId (lookupState valid b))"

definition deviceRuns :: "(string \<times> ComputeModuleState) list \<Rightarrow> (Device \<times> string list) list \<Rightarrow> bool" where
  "deviceRuns valid runs =
     (list_all (\<lambda>(d, run). run \<noteq> []
                  \<and> list_all (\<lambda>name. device (lookupState valid name) = d) run
                  \<and> successively (sameRun valid) run) runs
      \<and> successively (\<lambda>(d1, run1) (d2, run2). \<not> sameRun valid (last run1) (hd run2)) runs)"

subsection \<open>Example inputs for pruning\<close>

text \<open>The entry \<open>addModule\<close> writes for a module it has not seen before.\<close>

definition newComputeState :: "nat \<Rightarrow> Device \<Rightarrow> RecordMap \<Rightarrow> RecordMap \<Rightarrow> ComputeModuleState" where
  "newComputeState m d inputs outputs =
     \<lparr>module = m, device = d, inputMap = inputs, outputMap = outputs,
      activeInputs = [], activeOutputs = [], clusterId = 0\<rparr>"

definition emptyScheduler :: Scheduler where
  "emptyScheduler =
     \<lparr>running = False, computeModuleStates = [], presentModuleStates = [],
      validComputeModuleStates = [], validPresentModuleStates = [],
      executionOrder = [], deviceExecutionOrder = [], graphs = []\<rparr>"

text \<open>
  \<open>src\<close> feeds \<open>sink\<close> through one tensor and has a second, unconnected output; \<open>idle\<close>
  shares no tensor with anybody and also has a present side.
\<close>

definition pruneExample :: Scheduler where
  "pruneExample = emptyScheduler
     \<lparr>running := True,
      computeModuleStates :=
        [(''src'', newComputeState 1 CPU []
            [(''out'', \<lparr>hash = 7, locale_hash = 70\<rparr>), (''aux'', \<lparr>hash = 9, locale_hash = 90\<rparr>)]),
         (''sink'', newComputeState 2 CPU [(''in'', \<lparr>hash = 7, locale_hash = 70\<rparr>)] []),
         (''idle'', newComputeState 3 CPU [] [(''out'', \<lparr>hash = 5, locale_hash = 50\<rparr>)])],
      presentModuleStates :=
        [(''idle'', \<lparr>present_module = 3, present_inputMap = [],
                     present_outputMap = [(''out'', \<lparr>hash = 5, locale_hash = 50\<rparr>)]\<rparr>)]\<rparr>"

text \<open>Two ports that share the record hash 0.\<close>

definition zeroHashExample :: Scheduler where
  "zeroHashExample = emptyScheduler
     \<lparr>running := True,
      computeModuleStates :=
        [(''src'', newComputeState 1 CPU [] [(''out'', \<lparr>hash = 0, locale_hash = 70\<rparr>)]),
         (''sink'', newComputeState 2 CPU [(''in'', \<lparr>hash = 0, locale_hash = 70\<rparr>)] [])]\<rparr>"

subsection \<open>Example inputs for the dependency order\<close>

text \<open>
  The device-boundary scenario: \<open>A\<close> on the CPU feeds \<open>B\<close> on CUDA, which feeds \<open>C\<close> on the
  CPU. \<open>chainPruned\<close> is the state after pruning.
\<close>

definition chainExample :: Scheduler where
  "chainExample = emptyScheduler
     \<lparr>running := True,
      computeModuleStates :=
        [(''A'', newComputeState 1 CPU [] [(''out'', \<lparr>hash = 1, locale_hash = 10\<rparr>)]),
         (''B'', newComputeState 2 CUDA [(''in'', \<lparr>hash = 1, locale_hash = 10\<rparr>)]
                   [(''out'', \<lparr>hash = 2, locale_hash = 20\<rparr>)]),
         (''C'', newComputeState 3 CPU [(''in'', \<lparr>hash = 2, locale_hash = 20\<rparr>)] [])]\<rparr>"

definition chainPruned :: Scheduler where
  "chainPruned = snd (removeInactive chainExample)"

text \<open>The ready queue iterated in the order of insertion.\<close>

definition insertionOrder :: "nat \<Rightarrow> string list \<Rightarrow> string list" where
  "insertionOrder k names = names"

text \<open>A source module whose name is the empty string, feeding \<open>B\<close>.\<close>

definition emptyNameExample :: "(string \<times> ComputeModuleState) list" where
  "emptyNameExample =
     [([], (newComputeState 1 CPU [] [(''out'', \<lparr>hash = 1, locale_hash = 10\<rparr>)])
             \<lparr>activeOutputs := [(''out'', \<lparr>hash = 1, locale_hash = 10\<rparr>)]\<rparr>),
      (''B'', (newComputeState 2 CPU [(''in'', \<lparr>hash = 1, locale_hash = 10\<rparr>)] [])
             \<lparr>activeInputs := [(''in'', \<lparr>hash = 1, locale_hash = 10\<rparr>)]\<rparr>)]"

text \<open>The result code and the execution order of a run of the phase.\<close>

definition resultAndOrder :: "(Result \<times> Scheduler) option \<Rightarrow> (Result \<times> string list) option" where
  "resultAndOrder run = map_option (\<lambda>(r, s). (r, executionOrder s)) run"

subsection \<open>Example inputs for the public operations\<close>

text \<open>An environment in which every executor call succeeds.\<close>

definition calmEnvironment :: Environment where
  "calmEnvironment =
     \<lparr>graphDestroy = (\<lambda>graph. SUCCESS), graphCreate = (\<lambda>graph. SUCCESS),
      graphComputeReady = (\<lambda>polls graph. SUCCESS), graphCompute = (\<lambda>graph. SUCCESS),
      readyQueueOrder = insertionOrder\<rparr>"

text \<open>Running one operation after another, as long as each returns.\<close>

definition andThen ::
  "(Result \<times> Scheduler) option \<Rightarrow> (Scheduler \<Rightarrow> (Result \<times> Scheduler) option) \<Rightarrow> (Result \<times> Scheduler) option" where
  "andThen run operation = (case run of None \<Rightarrow> None | Some (r, s) \<Rightarrow> operation s)"

text \<open>The device-boundary scenario built through \<open>addModule\<close>: first \<open>A\<close> and \<open>B\<close>, then \<open>C\<close>.\<close>

definition chainAB :: "(Result \<times> Scheduler) option" where
  "chainAB =
     andThen
       (addModule calmEnvironment ''A'' CPU [] [(''out'', \<lparr>hash = 1, locale_hash = 10\<rparr>)]
          (Some 1) None emptyScheduler)
       (addModule calmEnvironment ''B'' CUDA [(''in'', \<lparr>hash = 1, locale_hash = 10\<rparr>)]
          [(''out'', \<lparr>hash = 2, locale_hash = 20\<rparr>)] (Some 2) None)"

definition chainABC :: "(Result \<times> Scheduler) option" where
  "chainABC =
     andThen chainAB
       (addModule calmEnvironment ''C'' CPU [(''in'', \<lparr>hash = 2, locale_hash = 20\<rparr>)] []
          (Some 3) None)"

definition stateOf :: "(Result \<times> Scheduler) option \<Rightarrow> Scheduler" where
  "stateOf run = (case run of None \<Rightarrow> emptyScheduler | Some (r, s) \<Rightarrow> s)"

definition chainABState :: Scheduler where
  "chainABState = stateOf chainAB"

text \<open>
  On top of the chain, \<open>X\<close> and \<open>Y\<close> feed each other: \<open>X\<close> alone is stale, adding \<open>Y\<close>
  closes the cycle.
\<close>

definition chainWithX :: "(Result \<times> Scheduler) option" where
  "chainWithX =
     andThen chainABC
       (addModule calmEnvironment ''X'' CPU [(''in'', \<lparr>hash = 8, locale_hash = 80\<rparr>)]
          [(''out'', \<lparr>hash = 9, locale_hash = 90\<rparr>)] (Some 4) None)"

definition chainWithXState :: Scheduler where
  "chainWithXState = stateOf chainWithX"

definition chainWithCycle :: "(Result \<times> Scheduler) option" where
  "chainWithCycle =
     addModule calmEnvironment ''Y'' CPU [(''in'', \<lparr>hash = 9, locale_hash = 90\<rparr>)]
       [(''out'', \<lparr>hash = 8, locale_hash = 80\<rparr>)] (Some 5) None chainWithXState"

text \<open>Environments in which one kind of executor call fails.\<close>

definition brokenDestroy :: Environment where
  "brokenDestroy = calmEnvironment\<lparr>graphDestroy := (\<lambda>graph. ERROR)\<rparr>"

definition brokenReady :: Environment where
  "brokenReady = calmEnvironment\<lparr>graphComputeReady := (\<lambda>polls graph. ERROR)\<rparr>"

text \<open>The first poll times out, and the CUDA executor skips its frame.\<close>

definition underrunEnvironment :: Environment where
  "underrunEnvironment = calmEnvironment
     \<lparr>graphComputeReady := (\<lambda>polls graph. if polls = 0 then TIMEOUT else SUCCESS),
      graphCompute := (\<lambda>graph. if graph_device graph = CUDA then SKIP else SUCCESS)\<rparr>"

text \<open>The state in which \<open>addModule\<close> starts the rebuild for \<open>Y\<close>, and its valid modules.\<close>

definition cycleRegistered :: Scheduler where
  "cycleRegistered =
     registerModule ''Y'' CPU [(''in'', \<lparr>hash = 9, locale_hash = 90\<rparr>)]
       [(''out'', \<lparr>hash = 8, locale_hash = 80\<rparr>)] (Some 5) None
       (chainWithXState\<lparr>running := True\<rparr>)"

definition cyclePruned :: "(string \<times> ComputeModuleState) list" where
  "cyclePruned = validComputeModuleStates (snd (removeInactive cycleRegistered))"

text \<open>The chain of \<open>A\<close> and \<open>B\<close> with \<open>C\<close> registered, before the rebuild for \<open>C\<close> prunes.\<close>

definition chainRegistered :: Scheduler where
  "chainRegistered =
     registerModule ''C'' CPU [(''in'', \<lparr>hash = 2, locale_hash = 20\<rparr>)] [] (Some 3) None
       (chainABState\<lparr>running := True\<rparr>)"

section \<open>Synchronisation of the compute thread, the present thread and mutations\<close>

text \<open>
  Modelled from the spec: the members \<open>computeHalt\<close>, \<open>presentHalt\<close>, \<open>computeWait\<close>,
  \<open>computeSync\<close>, \<open>presentSync\<close>, \<open>sharedMutex\<close> and the two condition variables are
  declared in \<open>scheduler.hh\<close>, which is not among the sources. The source uses the first
  three as atomic flags (\<open>test\<close>, \<open>test_and_set\<close>, \<open>clear\<close>, \<open>wait\<close>), the two sync members
  as booleans and \<open>sharedMutex\<close> as a mutex; all of them start cleared and unlocked. The
  spec names three threads: one that calls \<open>compute\<close> repeatedly, one that calls \<open>present\<close>
  repeatedly, and the application thread, whose mutations go through \<open>lockState\<close>.
\<close>

datatype Thread = ComputeThread | PresentThread | MutationThread

text \<open>
  The program counters. Each constructor stands for the statement its thread executes
  next; the \<open>Idle\<close> ones stand for a thread between two calls.
\<close>

datatype ComputePc =
    ComputeIdle
  | ComputeTestEmpty
  | ComputeTestHalt
  | ComputeHaltWait
  | ComputeSetWait
  | ComputeBarrier
  | ComputeClearWait
  | ComputeLock
  | ComputeCondCheck
  | ComputeCondSleep
  | ComputeSetSync
  | ComputePass
  | ComputeClearSync
  | ComputeUnlock
  | ComputeNotify

datatype PresentPc =
    PresentIdle
  | PresentTestEmpty
  | PresentTestHalt
  | PresentSetSync
  | PresentLock
  | PresentCondCheck
  | PresentCondSleep
  | PresentPass
  | PresentClearSync
  | PresentUnlock
  | PresentNotify

datatype MutationPc =
    MutationIdle
  | MutationHaltCompute
  | MutationHaltPresent
  | MutationWaitCompute
  | MutationLock
  | MutationSetPresentSync
  | MutationSetComputeSync
  | MutationFunc
  | MutationClearComputeSync
  | MutationClearPresentSync
  | MutationUnlock
  | MutationNotify
  | MutationUnhaltCompute
  | MutationUnhaltPresent

record SyncState =
  computePc :: ComputePc
  presentPc :: PresentPc
  mutationPc :: MutationPc
  computeHalt :: bool
  presentHalt :: bool
  computeWait :: bool
  computeSync :: bool
  presentSync :: bool
  sharedMutex :: "Thread option"

text \<open>
  What a step does can depend on data the synchronisation does not decide: whether a
  container is empty, what an executor returns, whether a loop has another round. The
  schedule supplies it as a \<open>Branch\<close>; its meaning is given at each statement, and
  statements without a choice ignore it.
\<close>

datatype Branch = Proceed | Repeat | Leave

text \<open>
  One step of \<open>compute\<close>; \<open>None\<close> when the thread is blocked.

  \<^item> \<open>ComputeTestEmpty\<close>: \<open>if (graphs.empty())\<close>; \<open>Leave\<close> is the empty case, which returns.
  \<^item> \<open>ComputeTestHalt\<close>: \<open>if (computeHalt.test())\<close>.
  \<^item> \<open>ComputeHaltWait\<close>: \<open>computeHalt.wait(true)\<close> blocks while the flag is set; the call
    then returns.
  \<^item> \<open>ComputeSetWait\<close>: \<open>computeWait.test_and_set()\<close>.
  \<^item> \<open>ComputeBarrier\<close>: one poll of \<open>computeReady\<close>. \<open>Repeat\<close> is a poll followed by another
    one (the next executor, or the \<open>goto\<close> after \<open>TIMEOUT\<close>), \<open>Leave\<close> a failure that
    \<open>JST_CHECK\<close> returns, with \<open>computeWait\<close> still set, \<open>Proceed\<close> the end of the loop.
  \<^item> \<open>ComputeClearWait\<close>: \<open>computeWait.clear(); computeWait.notify_all()\<close>.
  \<^item> \<open>ComputeLock\<close>: the constructor of the \<open>unique_lock\<close>.
  \<^item> \<open>ComputeCondCheck\<close>, \<open>ComputeCondSleep\<close>: \<open>computeCond.wait(lock, pred)\<close> tests
    \<open>!presentSync\<close> with the mutex held; when it fails, the thread releases the mutex and
    sleeps, and it takes the mutex again before the next test. A sleeping thread may wake
    at any time.
  \<^item> \<open>ComputeSetSync\<close>: \<open>computeSync = true\<close>.
  \<^item> \<open>ComputePass\<close>: one round of the loop over the executors; \<open>Repeat\<close> is a round
    followed by another one.
  \<^item> \<open>ComputeClearSync\<close>: \<open>computeSync = false\<close>.
  \<^item> \<open>ComputeUnlock\<close>: the end of the scope of the lock.
  \<^item> \<open>ComputeNotify\<close>: \<open>presentCond.notify_all()\<close> and the translation of the result.
\<close>

definition computeStep :: "Branch \<Rightarrow> SyncState \<Rightarrow> SyncState option" where
  "computeStep b s =
     (case computePc s of
        ComputeIdle \<Rightarrow> Some (s\<lparr>computePc := ComputeTestEmpty\<rparr>)
      | ComputeTestEmpty \<Rightarrow>
          Some (s\<lparr>computePc := (if b = Leave then ComputeIdle else ComputeTestHalt)\<rparr>)
      | ComputeTestHalt \<Rightarrow>
          Some (s\<lparr>computePc := (if computeHalt s then ComputeHaltWait else ComputeSetWait)\<rparr>)
      | ComputeHaltWait \<Rightarrow>
          if computeHalt s then None else Some (s\<lparr>computePc := ComputeIdle\<rparr>)
      | ComputeSetWait \<Rightarrow> Some (s\<lparr>computePc := ComputeBarrier, computeWait := True\<rparr>)
      | ComputeBarrier \<Rightarrow>
          Some (s\<lparr>computePc :=
                  (case b of Repeat \<Rightarrow> ComputeBarrier | Leave \<Rightarrow> ComputeIdle
                   | Proceed \<Rightarrow> ComputeClearWait)\<rparr>)
      | ComputeClearWait \<Rightarrow> Some (s\<lparr>computePc := ComputeLock, computeWait := False\<rparr>)
      | ComputeLock \<Rightarrow>
          if sharedMutex s = None
          then Some (s\<lparr>computePc := ComputeCondCheck, sharedMutex := Some ComputeThread\<rparr>)
          else None
      | ComputeCondCheck \<Rightarrow>
          if presentSync s
          then Some (s\<lparr>computePc := ComputeCondSleep, sharedMutex := None\<rparr>)
          else Some (s\<lparr>computePc := ComputeSetSync\<rparr>)
      | ComputeCondSleep \<Rightarrow>
          if sharedMutex s = None
          then Some (s\<lparr>computePc := ComputeCondCheck, sharedMutex := Some ComputeThread\<rparr>)
          else None
      | ComputeSetSync \<Rightarrow> Some (s\<lparr>computePc := ComputePass, computeSync := True\<rparr>)
      | ComputePass \<Rightarrow>
          Some (s\<lparr>computePc := (if b = Repeat then ComputePass else ComputeClearSync)\<rparr>)
      | ComputeClearSync \<Rightarrow> Some (s\<lparr>computePc := ComputeUnlock, computeSync := False\<rparr>)
      | ComputeUnlock \<Rightarrow> Some (s\<lparr>computePc := ComputeNotify, sharedMutex := None\<rparr>)
      | ComputeNotify \<Rightarrow> Some (s\<lparr>computePc := ComputeIdle\<rparr>))"

text \<open>
  One step of \<open>present\<close>.

  \<^item> \<open>PresentTestEmpty\<close>: \<open>if (validPresentModuleStates.empty())\<close>; \<open>Leave\<close> returns.
  \<^item> \<open>PresentTestHalt\<close>: \<open>if (presentHalt.test())\<close> returns at once when the flag is set.
  \<^item> \<open>PresentSetSync\<close>: \<open>presentSync = true\<close>, before the mutex is taken.
  \<^item> \<open>PresentLock\<close>, \<open>PresentCondCheck\<close>, \<open>PresentCondSleep\<close>: the lock and
    \<open>presentCond.wait(lock, pred)\<close> on \<open>!computeSync\<close>.
  \<^item> \<open>PresentPass\<close>: one round of the loop over the present modules. \<open>Repeat\<close> is a round
    followed by another one; \<open>Leave\<close> is a failure that \<open>JST_CHECK\<close> returns: the lock is
    released on the way out and \<open>presentSync\<close> stays set.
  \<^item> \<open>PresentClearSync\<close>: \<open>presentSync = false\<close>.
  \<^item> \<open>PresentUnlock\<close>, \<open>PresentNotify\<close>: the end of the scope and \<open>computeCond.notify_all()\<close>.
\<close>

definition presentStep :: "Branch \<Rightarrow> SyncState \<Rightarrow> SyncState option" where
  "presentStep b s =
     (case presentPc s of
        PresentIdle \<Rightarrow> Some (s\<lparr>presentPc := PresentTestEmpty\<rparr>)
      | PresentTestEmpty \<Rightarrow>
          Some (s\<lparr>presentPc := (if b = Leave then PresentIdle else PresentTestHalt)\<rparr>)
      | PresentTestHalt \<Rightarrow>
          Some (s\<lparr>presentPc := (if presentHalt s then PresentIdle else PresentSetSync)\<rparr>)
      | PresentSetSync \<Rightarrow> Some (s\<lparr>presentPc := PresentLock, presentSync := True\<rparr>)
      | PresentLock \<Rightarrow>
          if sharedMutex s = None
          then Some (s\<lparr>presentPc := PresentCondCheck, sharedMutex := Some PresentThread\<rparr>)
          else None
      | PresentCondCheck \<Rightarrow>
          if computeSync s
          then Some (s\<lparr>presentPc := PresentCondSleep, sharedMutex := None\<rparr>)
          else Some (s\<lparr>presentPc := PresentPass\<rparr>)
      | PresentCondSleep \<Rightarrow>
          if sharedMutex s = None
          then Some (s\<lparr>presentPc := PresentCondCheck, sharedMutex := Some PresentThread\<rparr>)
          else None
      | PresentPass \<Rightarrow>
          (case b of
             Repeat \<Rightarrow> Some s
           | Leave \<Rightarrow> Some (s\<lparr>presentPc := PresentIdle, sharedMutex := None\<rparr>)
           | Proceed \<Rightarrow> Some (s\<lparr>presentPc := PresentClearSync\<rparr>))
      | PresentClearSync \<Rightarrow> Some (s\<lparr>presentPc := PresentUnlock, presentSync := False\<rparr>)
      | PresentUnlock \<Rightarrow> Some (s\<lparr>presentPc := PresentNotify, sharedMutex := None\<rparr>)
      | PresentNotify \<Rightarrow> Some (s\<lparr>presentPc := PresentIdle\<rparr>))"

text \<open>
  One step of \<open>lockState\<close>, statement by statement: the two halt flags are raised,
  \<open>computeWait.wait(true)\<close> blocks while \<open>computeWait\<close> is set, the mutex is locked, both sync
  members are set, \<open>func\<close> runs (\<open>Repeat\<close> is a step of \<open>func\<close> followed by another one), and
  everything is undone in the order of the source.
\<close>

definition mutationStep :: "Branch \<Rightarrow> SyncState \<Rightarrow> SyncState option" where
  "mutationStep b s =
     (case mutationPc s of
        MutationIdle \<Rightarrow> Some (s\<lparr>mutationPc := MutationHaltCompute\<rparr>)
      | MutationHaltCompute \<Rightarrow> Some (s\<lparr>mutationPc := MutationHaltPresent, computeHalt := True\<rparr>)
      | MutationHaltPresent \<Rightarrow> Some (s\<lparr>mutationPc := MutationWaitCompute, presentHalt := True\<rparr>)
      | MutationWaitCompute \<Rightarrow>
          if computeWait s then None else Some (s\<lparr>mutationPc := MutationLock\<rparr>)
      | MutationLock \<Rightarrow>
          if sharedMutex s = None
          then Some (s\<lparr>mutationPc := MutationSetPresentSync, sharedMutex := Some MutationThread\<rparr>)
          else None
      | MutationSetPresentSync \<Rightarrow>
          Some (s\<lparr>mutationPc := MutationSetComputeSync, presentSync := True\<rparr>)
      | MutationSetComputeSync \<Rightarrow> Some (s\<lparr>mutationPc := MutationFunc, computeSync := True\<rparr>)
      | MutationFunc \<Rightarrow>
          Some (s\<lparr>mutationPc := (if b = Repeat then MutationFunc else MutationClearComputeSync)\<rparr>)
      | MutationClearComputeSync \<Rightarrow>
          Some (s\<lparr>mutationPc := MutationClearPresentSync, computeSync := False\<rparr>)
      | MutationClearPresentSync \<Rightarrow>
          Some (s\<lparr>mutationPc := MutationUnlock, presentSync := False\<rparr>)
      | MutationUnlock \<Rightarrow> Some (s\<lparr>mutationPc := MutationNotify, sharedMutex := None\<rparr>)
      | MutationNotify \<Rightarrow> Some (s\<lparr>mutationPc := MutationUnhaltCompute\<rparr>)
      | MutationUnhaltCompute \<Rightarrow>
          Some (s\<lparr>mutationPc := MutationUnhaltPresent, computeHalt := False\<rparr>)
      | MutationUnhaltPresent \<Rightarrow> Some (s\<lparr>mutationPc := MutationIdle, presentHalt := False\<rparr>))"

text \<open>The interleaving: any thread that is not blocked may take the next step.\<close>

fun threadStep :: "Thread \<Rightarrow> Branch \<Rightarrow> SyncState \<Rightarrow> SyncState option" where
  "threadStep ComputeThread b s = computeStep b s"
| "threadStep PresentThread b s = presentStep b s"
| "threadStep MutationThread b s = mutationStep b s"

definition initialSync :: SyncState where
  "initialSync =
     \<lparr>computePc = ComputeIdle, presentPc = PresentIdle, mutationPc = MutationIdle,
      computeHalt = False, presentHalt = False, computeWait = False,
      computeSync = False, presentSync = False, sharedMutex = None\<rparr>"


text \<open>A schedule names, step by step, the thread that runs and the branch it takes.\<close>

fun runSchedule :: "(Thread \<times> Branch) list \<Rightarrow> SyncState \<Rightarrow> SyncState option" where
  "runSchedule [] s = Some s"
| "runSchedule ((t, b) # schedule) s =
     (case threadStep t b s of None \<Rightarrow> None | Some s' \<Rightarrow> runSchedule schedule s')"

subsection \<open>Vocabulary for statements about the synchronisation\<close>


















subsection \<open>Example schedules\<close>

text \<open>
  \<open>compute\<close> passes its halt test and its readiness barrier and clears \<open>computeWait\<close>; then
  \<open>lockState\<close> raises the halt flags, finds \<open>computeWait\<close> clear, takes the mutex and enters
  \<open>func\<close>, while the same \<open>compute\<close> call is about to lock the mutex for its pass.
\<close>

definition afterBarrierSchedule :: "(Thread \<times> Branch) list" where
  "afterBarrierSchedule =
     replicate 6 (ComputeThread, Proceed) @ replicate 7 (MutationThread, Proceed)"

text \<open>
  The schedule goes on: \<open>lockState\<close> runs to its end, and the \<open>compute\<close> call takes the mutex
  and starts its pass.
\<close>

definition wholeMutationSchedule :: "(Thread \<times> Branch) list" where
  "wholeMutationSchedule =
     afterBarrierSchedule @ replicate 7 (MutationThread, Proceed)
       @ replicate 3 (ComputeThread, Proceed)"

text \<open>
  \<open>compute\<close> is in its pass; \<open>present\<close> has set \<open>presentSync\<close> and \<open>lockState\<close> has raised the
  halt flags, and both are about to lock the mutex.
\<close>

definition contendedSchedule :: "(Thread \<times> Branch) list" where
  "contendedSchedule =
     replicate 9 (ComputeThread, Proceed) @ replicate 4 (PresentThread, Proceed)
       @ replicate 4 (MutationThread, Proceed)"

section \<open>Properties of pruning\<close>


lemma contains_set: "contains xs x = (x \<in> set xs)"
  by (induction xs) auto

lemma promote_Nil: "promote valid [] a = a"
  by (simp add: promote_def)

lemma promote_Cons:
  "promote valid ((k, v) # m) a =
     promote valid m (if 1 < valid (hash v) then AList.update k v a else a)"
  by (simp add: promote_def)

lemma map_of_promote_miss:
  "k \<notin> fst ` set m \<Longrightarrow> map_of (promote valid m a) k = map_of a k"
  by (induction m arbitrary: a) (auto simp: promote_Nil promote_Cons update_conv')

lemma map_of_promote_hit:
  "distinct (map fst m) \<Longrightarrow> (k, v) \<in> set m \<Longrightarrow> 1 < valid (hash v)
   \<Longrightarrow> map_of (promote valid m a) k = Some v"
proof (induction m arbitrary: a)
  case Nil
  then show ?case by simp
next
  case (Cons p m)
  obtain k' v' where p: "p = (k', v')" by (cases p)
  note step = promote_Cons [of valid k' v' m a]
  show ?case
  proof (cases "(k, v) = p")
    case True
    with Cons.prems p have "k \<notin> fst ` set m" by auto
    with True p Cons.prems(3) show ?thesis
      unfolding p by (simp add: step map_of_promote_miss update_conv')
  next
    case False
    with Cons.prems have "(k, v) \<in> set m" "distinct (map fst m)" by auto
    with Cons.IH Cons.prems(3) show ?thesis unfolding p by (simp add: step)
  qed
qed

lemma fold_countRecord:
  "fold countRecord rs valid h =
     (if h = 0 then valid h else valid h + of_nat (count_list (map hash rs) h))"
  by (induction rs arbitrary: valid) (auto simp: countRecord_def)

lemma countModule_eq:
  "countModule state valid h =
     (if h = 0 then valid h
      else valid h + of_nat (count_list (map (hash \<circ> snd) (inputMap state) @ map (hash \<circ> snd) (outputMap state)) h))"
  by (simp add: countModule_def fold_countRecord)

lemma fold_countModule:
  "fold (\<lambda>(name, state). countModule state) states valid h =
     (if h = 0 then valid h else valid h + of_nat (count_list (portHashes states) h))"
proof (induction states arbitrary: valid)
  case Nil
  then show ?case by (simp add: portHashes_def)
next
  case (Cons p states)
  obtain n st where p: "p = (n, st)" by (cases p)
  show ?case unfolding p
    using Cons.IH [of "countModule st valid"]
    by (simp add: countModule_eq portHashes_def)
qed

lemma countHashes_eq:
  "countHashes states h = (if h = 0 then 0 else of_nat (count_list (portHashes states) h))"
  by (simp add: countHashes_def fold_countModule)

lemma one_less_of_nat64:
  "n < 2 ^ 64 \<Longrightarrow> (1 < (of_nat n :: 64 word)) = (1 < n)"
  by (simp add: word_less_nat_alt unat_of_nat)

lemma generateIO_maps [simp]:
  "inputMap (generateIO valid state) = inputMap state"
  "outputMap (generateIO valid state) = outputMap state"
  by (simp_all add: generateIO_def)

lemma portHashes_generateIO:
  "portHashes (map (\<lambda>(name, state). (name, generateIO valid state)) states) = portHashes states"
  by (induction states) (auto simp: portHashes_def)

lemma countHashes_generateIO:
  "countHashes (map (\<lambda>(name, state). (name, generateIO valid state)) states) = countHashes states"
  by (rule ext) (simp add: countHashes_eq portHashes_generateIO)

lemma count_list_le_length: "count_list xs x \<le> length xs"
  by (induction xs) auto

lemma countHashes_connected:
  assumes "length (portHashes states) < 2 ^ 64"
  shows "(1 < countHashes states (hash meta)) = connected states (pin, meta)"
proof -
  have "count_list (portHashes states) (hash meta) < 2 ^ 64"
    using assms count_list_le_length [of "portHashes states" "hash meta"] by simp
  then show ?thesis
    by (simp add: connected_def countHashes_eq one_less_of_nat64)
qed

lemma filter_connected:
  assumes "length (portHashes states) < 2 ^ 64"
  shows "filter (\<lambda>(pin, meta). 1 < countHashes states (hash meta)) m = filter (connected states) m"
proof (rule filter_cong)
  fix x assume "x \<in> set m"
  obtain pin meta where x: "x = (pin, meta)" by (cases x)
  show "(case x of (pin, meta) \<Rightarrow> 1 < countHashes states (hash meta)) = connected states x"
    unfolding x using countHashes_connected [OF assms, of meta pin] by simp
qed simp

lemma map_of_keepValid_acc:
  "contains stale name \<Longrightarrow>
   map_of (fold (\<lambda>(n, st) acc. if contains stale n then acc else AList.update n st acc) xs acc) name
     = map_of acc name"
  by (induction xs arbitrary: acc) (auto simp: update_conv')

lemma map_of_keepValid_stale:
  "contains stale name \<Longrightarrow> map_of (keepValid stale xs) name = None"
  by (simp add: keepValid_def map_of_keepValid_acc)

lemma staleModules_contains:
  "(name, state) \<in> set states \<Longrightarrow> isStale state \<Longrightarrow> contains (staleModules states) name"
  by (force simp: contains_set staleModules_def)

section \<open>Properties of the dependency order\<close>

lemma lookupState_mem:
  "distinct (map fst valid) \<Longrightarrow> (name, state) \<in> set valid \<Longrightarrow> lookupState valid name = state"
  by (simp add: lookupState_def)

lemma lookupState_not_mem:
  "name \<notin> fst ` set valid \<Longrightarrow> lookupState valid name = defaultComputeState"
proof -
  assume "name \<notin> fst ` set valid"
  then have "map_of valid name = None" by (simp add: map_of_eq_None_iff)
  then show ?thesis by (simp add: lookupState_def)
qed

lemma inDegree_not_mem: "name \<notin> fst ` set valid \<Longrightarrow> inDegree valid name = 0"
  by (simp add: inDegree_def lookupState_not_mem defaultComputeState_def)

lemma targets_not_mem: "name \<notin> fst ` set valid \<Longrightarrow> targets valid name = []"
  by (simp add: targets_def lookupState_not_mem defaultComputeState_def)

subsection \<open>The caches\<close>

lemma fold_inputCache_inner:
  "fold (\<lambda>(pin, meta) c. c(locale_hash meta := c (locale_hash meta) @ [name])) ins cache h
   = cache h @ map (\<lambda>x. name) (filter (\<lambda>(pin, meta). locale_hash meta = h) ins)"
  by (induction ins arbitrary: cache) auto

lemma fold_inputCache_outer:
  "fold (\<lambda>(name, state) cache.
           fold (\<lambda>(pin, meta) c. c(locale_hash meta := c (locale_hash meta) @ [name]))
             (activeInputs state) cache) valid cache h
   = cache h @ concat (map (\<lambda>(name, state).
       map (\<lambda>x. name) (filter (\<lambda>(pin, meta). locale_hash meta = h) (activeInputs state))) valid)"
proof (induction valid arbitrary: cache)
  case Nil
  show ?case by simp
next
  case (Cons p valid)
  obtain n st where p: "p = (n, st)" by (cases p)
  define inner where "inner = fold (\<lambda>(pin, meta) c. c(locale_hash meta := c (locale_hash meta) @ [n]))
             (activeInputs st) cache"
  have inner: "inner h = cache h @ map (\<lambda>x. n) (filter (\<lambda>(pin, meta). locale_hash meta = h) (activeInputs st))"
    unfolding inner_def by (rule fold_inputCache_inner)
  show ?case unfolding p
    using Cons.IH [of inner] inner by (simp add: inner_def del: fun_upd_apply)
qed

lemma moduleInputCache_eq:
  "moduleInputCache valid h =
     concat (map (\<lambda>(name, state).
       map (\<lambda>x. name) (filter (\<lambda>(pin, meta). locale_hash meta = h) (activeInputs state))) valid)"
  by (simp add: moduleInputCache_def fold_inputCache_outer)

lemma set_moduleInputCache: "set (moduleInputCache valid h) \<subseteq> fst ` set valid"
  by (auto simp: moduleInputCache_eq) force

lemma count_concat_names:
  "distinct (map fst valid) \<Longrightarrow>
   count_list (concat (map (\<lambda>(name, state). map (\<lambda>x. name) (f state)) valid)) m
   = (if m \<in> fst ` set valid then length (f (lookupState valid m)) else 0)"
proof (induction valid)
  case Nil
  show ?case by simp
next
  case (Cons p valid)
  obtain n st where p: "p = (n, st)" by (cases p)
  have cnt: "count_list (map (\<lambda>x. n) xs) m = (if n = m then length xs else 0)" for xs :: "'b list"
    by (induction xs) auto
  have look: "lookupState ((n, st) # valid) m = (if m = n then st else lookupState valid m)"
    by (simp add: lookupState_def)
  from Cons.prems p have n: "n \<notin> fst ` set valid" and d: "distinct (map fst valid)" by auto
  show ?case unfolding p using n Cons.IH [OF d]
    by (auto simp: cnt look)
qed

lemma count_moduleInputCache:
  "distinct (map fst valid) \<Longrightarrow>
   count_list (moduleInputCache valid h) m
   = length (filter (\<lambda>(pin, meta). locale_hash meta = h) (activeInputs (lookupState valid m)))"
  by (simp add: moduleInputCache_eq count_concat_names lookupState_not_mem defaultComputeState_def)

lemma set_targets: "set (targets valid name) \<subseteq> fst ` set valid"
  using set_moduleInputCache by (fastforce simp: targets_def)

subsection \<open>Initial queue and degrees\<close>

lemma set_emplace: "set (emplace x q) = insert x (set q)"
  by (auto simp: emplace_def contains_set)

lemma distinct_emplace: "distinct q \<Longrightarrow> distinct (emplace x q)"
  by (auto simp: emplace_def contains_set)

lemma initialDegrees_fold:
  "distinct (map fst valid) \<Longrightarrow>
   fold (\<lambda>(name, state) degrees. degrees(name := of_nat (length (activeInputs state)))) valid d0 m
   = (if m \<in> fst ` set valid then of_nat (length (activeInputs (lookupState valid m))) else d0 m)"
proof (induction valid arbitrary: d0)
  case Nil
  show ?case by simp
next
  case (Cons p valid)
  obtain n st where p: "p = (n, st)" by (cases p)
  have look: "lookupState ((n, st) # valid) m = (if m = n then st else lookupState valid m)"
    by (simp add: lookupState_def)
  from Cons.prems p have n: "n \<notin> fst ` set valid" and d: "distinct (map fst valid)" by auto
  show ?case unfolding p using n Cons.IH [OF d]
    by (auto simp: look)
qed

lemma initialDegrees_eq:
  "distinct (map fst valid) \<Longrightarrow> initialDegrees valid m = of_nat (inDegree valid m)"
  by (simp add: initialDegrees_def initialDegrees_fold inDegree_def lookupState_not_mem
      defaultComputeState_def)

lemma initialQueue_fold:
  "distinct q0 \<Longrightarrow>
   distinct (fold (\<lambda>(name, state) queue.
             if length (activeInputs state) = 0 then emplace name queue else queue) valid q0)
   \<and> set (fold (\<lambda>(name, state) queue.
             if length (activeInputs state) = 0 then emplace name queue else queue) valid q0)
     = set q0 \<union> {name. \<exists>state. (name, state) \<in> set valid \<and> activeInputs state = []}"
proof (induction valid arbitrary: q0)
  case Nil
  then show ?case by simp
next
  case (Cons p valid)
  obtain n st where p: "p = (n, st)" by (cases p)
  show ?case unfolding p using Cons.IH [of "emplace n q0"] Cons.IH [of q0] Cons.prems
    by (auto simp: set_emplace distinct_emplace)
qed

lemma initialQueue_props:
  "distinct (map fst valid) \<Longrightarrow>
   distinct (initialQueue valid)
   \<and> set (initialQueue valid) = {name \<in> fst ` set valid. inDegree valid name = 0}"
  using initialQueue_fold [of "[]" valid]
  by (auto simp: initialQueue_def inDegree_def lookupState_mem) force

subsection \<open>Releasing the consumers of a scheduled module\<close>

lemma releaseConsumers_eq:
  "releaseConsumers (moduleInputCache valid) (activeOutputs (lookupState valid name))
   = fold decrement (targets valid name)"
proof -
  have "fold (\<lambda>(pin, meta). fold decrement (cache (locale_hash meta))) outs dq
      = fold decrement (concat (map (\<lambda>(pin, meta). cache (locale_hash meta)) outs)) dq"
    for cache :: "64 word \<Rightarrow> string list" and outs :: RecordMap and dq
    by (induction outs arbitrary: dq) (simp_all add: split_def)
  then show ?thesis by (simp add: releaseConsumers_def targets_def fun_eq_iff)
qed

lemma decrement_eq:
  "decrement x (deg, q) = (deg(x := deg x - 1), if deg x - 1 = 0 then emplace x q else q)"
  by (simp add: decrement_def Let_def)

lemma fst_fold_decrement:
  "fst (fold decrement xs (deg, q)) n = deg n - of_nat (count_list xs n)"
proof (induction xs arbitrary: deg q)
  case Nil
  show ?case by simp
next
  case (Cons x xs)
  show ?case by (simp add: decrement_eq Cons.IH)
qed

lemma distinct_fold_decrement:
  "distinct q \<Longrightarrow> distinct (snd (fold decrement xs (deg, q)))"
proof (induction xs arbitrary: deg q)
  case Nil
  then show ?case by simp
next
  case (Cons x xs)
  then show ?case by (simp add: decrement_eq distinct_emplace)
qed

lemma word_pred_eq_of_nat:
  "((d :: 64 word) - 1 = of_nat j) = (d = of_nat (Suc j))"
  by (simp add: diff_eq_eq add.commute)

lemma set_fold_decrement:
  "set (snd (fold decrement xs (deg, q)))
   = set q \<union> {n. \<exists>j. 0 < j \<and> j \<le> count_list xs n \<and> deg n = of_nat j}"
proof (induction xs arbitrary: deg q)
  case Nil
  show ?case by simp
next
  case (Cons x xs)
  let ?deg = "deg(x := deg x - 1)"
  let ?q = "if deg x - 1 = 0 then emplace x q else q"
  have unfold: "fold decrement (x # xs) (deg, q) = fold decrement xs (?deg, ?q)"
    by (simp add: decrement_eq)
  have step: "set (snd (fold decrement (x # xs) (deg, q)))
      = set ?q \<union> {n. \<exists>j. 0 < j \<and> j \<le> count_list xs n \<and> ?deg n = of_nat j}"
    unfolding unfold by (rule Cons.IH)
  have q: "set ?q = set q \<union> {n. n = x \<and> deg x = of_nat (Suc 0)}"
    by (auto simp: set_emplace)
  have other: "(\<exists>j. 0 < j \<and> j \<le> count_list xs n \<and> ?deg n = of_nat j)
      = (\<exists>j. 0 < j \<and> j \<le> count_list (x # xs) n \<and> deg n = of_nat j)" if "n \<noteq> x" for n
    using that by auto
  have same: "(deg x = of_nat (Suc 0) \<or> (\<exists>j. 0 < j \<and> j \<le> count_list xs x \<and> ?deg x = of_nat j))
      = (\<exists>j. 0 < j \<and> j \<le> count_list (x # xs) x \<and> deg x = of_nat j)"
  proof
    assume "deg x = of_nat (Suc 0) \<or> (\<exists>j. 0 < j \<and> j \<le> count_list xs x \<and> ?deg x = of_nat j)"
    then show "\<exists>j. 0 < j \<and> j \<le> count_list (x # xs) x \<and> deg x = of_nat j"
    proof
      assume "deg x = of_nat (Suc 0)"
      then show ?thesis by (intro exI [of _ "Suc 0"]) simp
    next
      assume "\<exists>j. 0 < j \<and> j \<le> count_list xs x \<and> ?deg x = of_nat j"
      then obtain j where j: "0 < j" "j \<le> count_list xs x" "deg x - 1 = of_nat j" by auto
      from j(3) have "deg x = of_nat (Suc j)" by (simp only: word_pred_eq_of_nat)
      with j show ?thesis by (intro exI [of _ "Suc j"]) simp
    qed
  next
    assume "\<exists>j. 0 < j \<and> j \<le> count_list (x # xs) x \<and> deg x = of_nat j"
    then obtain j where j: "0 < j" "j \<le> Suc (count_list xs x)" "deg x = of_nat j" by auto
    show "deg x = of_nat (Suc 0) \<or> (\<exists>j. 0 < j \<and> j \<le> count_list xs x \<and> ?deg x = of_nat j)"
    proof (cases "j = Suc 0")
      case True
      with j show ?thesis by simp
    next
      case False
      with j obtain i where i: "j = Suc i" "0 < i" "i \<le> count_list xs x"
        by (cases j) auto
      from j(3) i(1) have "deg x - 1 = of_nat i" by (simp only: word_pred_eq_of_nat)
      with i show ?thesis by auto
    qed
  qed
  show ?case
  proof (rule set_eqI)
    fix n
    show "(n \<in> set (snd (fold decrement (x # xs) (deg, q))))
        = (n \<in> set q \<union> {n. \<exists>j. 0 < j \<and> j \<le> count_list (x # xs) n \<and> deg n = of_nat j})"
    proof (cases "n = x")
      case True
      show ?thesis unfolding step q True using same by blast
    next
      case False
      show ?thesis unfolding step q using other [OF False] False by blast
    qed
  qed
qed

subsection \<open>Scanning the ready queue\<close>

lemma scanQueue_none:
  "scanQueue deviceOf Device_None (name # rest) = (deviceOf name, name)"
  by simp

lemma scanQueue_chosen:
  "scanQueue deviceOf lastDev names = (dev, next) \<Longrightarrow> next \<noteq> [] \<Longrightarrow>
   next \<in> set names \<and> dev = deviceOf next"
  by (induction names arbitrary: lastDev) (auto simp: Let_def split: if_splits)

lemma scanQueue_empty:
  "scanQueue deviceOf lastDev names = (dev, []) \<Longrightarrow> [] \<notin> set names \<Longrightarrow> names \<noteq> [] \<Longrightarrow>
   lastDev \<noteq> Device_None"
  by (cases names) (auto simp: Let_def split: if_splits)

subsection \<open>Counting releases\<close>

lemma count_list_concat:
  "count_list (concat xss) m = sum_list (map (\<lambda>xs. count_list xs m) xss)"
  by (induction xss) auto

lemma released_Nil: "released valid [] m = 0"
  by (simp add: released_def)

lemma released_snoc:
  "released valid (order @ [p]) m = released valid order m + count_list (targets valid p) m"
  by (simp add: released_def)

lemma released_sum:
  "released valid order m = sum_list (map (\<lambda>p. count_list (targets valid p) m) order)"
  by (simp add: released_def count_list_concat comp_def)

lemma sum_list_distinct_subset:
  fixes f :: "'a \<Rightarrow> nat"
  assumes "distinct xs" "distinct ys" "set xs \<subseteq> set ys"
  shows "sum_list (map f xs) \<le> sum_list (map f ys)"
proof -
  have "sum_list (map f xs) = sum f (set xs)"
    using assms(1) by (simp add: sum_list_distinct_conv_sum_set)
  also have "\<dots> \<le> sum f (set ys)"
    using assms(3) by (intro sum_mono2) auto
  also have "\<dots> = sum_list (map f ys)"
    using assms(2) by (simp add: sum_list_distinct_conv_sum_set)
  finally show ?thesis .
qed

lemma released_le_total:
  assumes "distinct order" "set order \<subseteq> fst ` set valid" "distinct (map fst valid)"
  shows "released valid order m \<le> length (concat (map (targets valid) (map fst valid)))"
proof -
  have "released valid order m \<le> released valid (map fst valid) m"
    unfolding released_sum using assms by (intro sum_list_distinct_subset) auto
  also have "\<dots> \<le> length (concat (map (targets valid) (map fst valid)))"
    unfolding released_def by (rule count_list_le_length)
  finally show ?thesis .
qed

lemma inDegree_bound:
  assumes "releaseBound valid" "distinct (map fst valid)"
  shows "inDegree valid m < 2 ^ 64"
proof (cases "m \<in> fst ` set valid")
  case True
  then obtain st where st: "(m, st) \<in> set valid" by auto
  with assms(1) have "length (activeInputs st) < 2 ^ 64"
    by (auto simp: releaseBound_def list_all_iff)
  with st assms(2) show ?thesis by (simp add: inDegree_def lookupState_mem)
next
  case False
  then show ?thesis by (simp add: inDegree_not_mem)
qed

lemma of_nat64_inj:
  "a < 2 ^ 64 \<Longrightarrow> b < 2 ^ 64 \<Longrightarrow> ((of_nat a :: 64 word) = of_nat b) = (a = b)"
  by (simp add: word_of_nat_eq_iff take_bit_nat_eq_self)

lemma of_nat64_diff_eq:
  assumes "a < 2 ^ 64" "c + j < 2 ^ 64"
  shows "((of_nat a :: 64 word) - of_nat c = of_nat j) = (a = c + j)"
proof -
  have "((of_nat a :: 64 word) - of_nat c = of_nat j) = ((of_nat a :: 64 word) = of_nat (c + j))"
    by (simp add: diff_eq_eq add.commute)
  also have "\<dots> = (a = c + j)"
    using assms by (rule of_nat64_inj)
  finally show ?thesis .
qed

subsection \<open>The invariant of the ordering loop\<close>

lemma orderingInvariant_initial:
  assumes "distinct (map fst valid)"
  shows "orderingInvariant valid (initialOrdering valid)"
  using initialQueue_props [OF assms]
  by (auto simp: orderingInvariant_def initialOrdering_def released_Nil initialDegrees_eq [OF assms])

lemma orderStep_reset:
  assumes "scanQueue (\<lambda>name. device (lookupState valid name)) (lastDevice st)
             (queueOrder (passes st) (queue st)) = (dev, [])"
  shows "orderStep queueOrder valid st = st\<lparr>lastDevice := Device_None, passes := Suc (passes st)\<rparr>"
  using assms by (simp add: orderStep_def)

lemma orderStep_select:
  assumes "scanQueue (\<lambda>name. device (lookupState valid name)) (lastDevice st)
             (queueOrder (passes st) (queue st)) = (dev, next)"
    and "next \<noteq> []"
  shows "orderStep queueOrder valid st =
     \<lparr>queue = snd (fold decrement (targets valid next) (degrees st, removeAll next (queue st))),
      degrees = fst (fold decrement (targets valid next) (degrees st, removeAll next (queue st))),
      lastDevice = dev, primitiveOrder = primitiveOrder st @ [next], passes = Suc (passes st)\<rparr>"
  using assms by (simp add: orderStep_def releaseConsumers_eq split_def Let_def)

lemma orderingInvariant_reset:
  "orderingInvariant valid st \<Longrightarrow>
   orderingInvariant valid (st\<lparr>lastDevice := Device_None, passes := Suc (passes st)\<rparr>)"
  by (simp add: orderingInvariant_def)

lemma orderingInvariant_select:
  assumes inv: "orderingInvariant valid st"
    and named: "distinct (map fst valid)"
    and bound: "releaseBound valid"
    and mem: "next \<in> set (queue st)"
  shows "orderingInvariant valid
     \<lparr>queue = snd (fold decrement (targets valid next) (degrees st, removeAll next (queue st))),
      degrees = fst (fold decrement (targets valid next) (degrees st, removeAll next (queue st))),
      lastDevice = dev, primitiveOrder = primitiveOrder st @ [next], passes = k\<rparr>"
proof -
  let ?q = "queue st" and ?po = "primitiveOrder st" and ?xs = "targets valid next"
  let ?new = "{n. \<exists>j. 0 < j \<and> j \<le> count_list ?xs n \<and> degrees st n = of_nat j}"
  from inv have dq: "distinct ?q" and dpo: "distinct ?po" and disj: "set ?q \<inter> set ?po = {}"
    and deg: "\<And>n. degrees st n = of_nat (inDegree valid n) - of_nat (released valid ?po n)"
    and member: "\<And>n. (n \<in> set ?q \<union> set ?po) =
        (n \<in> fst ` set valid \<and> inDegree valid n \<le> released valid ?po n)"
    and prefix: "\<And>i. i < length ?po \<Longrightarrow>
        inDegree valid (?po ! i) \<le> released valid (take i ?po) (?po ! i)"
    by (simp_all add: orderingInvariant_def)
  have next_valid: "next \<in> fst ` set valid" and next_ready: "inDegree valid next \<le> released valid ?po next"
    using member [of "next"] mem by auto
  have next_new: "next \<notin> set ?po" using mem disj by auto
  have dpo': "distinct (?po @ [next])" using dpo next_new by simp
  have sub': "set (?po @ [next]) \<subseteq> fst ` set valid"
    using member next_valid by auto
  have total: "released valid ?po n + count_list ?xs n < 2 ^ 64" for n
  proof -
    have "released valid (?po @ [next]) n \<le> length (concat (map (targets valid) (map fst valid)))"
      by (rule released_le_total [OF dpo' sub' named])
    with bound show ?thesis by (simp add: releaseBound_def released_snoc)
  qed
  have new_iff: "(n \<in> ?new) =
      (released valid ?po n < inDegree valid n
       \<and> inDegree valid n \<le> released valid ?po n + count_list ?xs n)" for n
  proof -
    have eq: "(degrees st n = of_nat j) = (inDegree valid n = released valid ?po n + j)"
      if "j \<le> count_list ?xs n" for j
    proof -
      have "released valid ?po n + j < 2 ^ 64"
        using total [of n] that by simp
      with inDegree_bound [OF bound named, of n] show ?thesis
        unfolding deg by (rule of_nat64_diff_eq)
    qed
    have "(n \<in> ?new) = (\<exists>j. 0 < j \<and> j \<le> count_list ?xs n
        \<and> inDegree valid n = released valid ?po n + j)"
      using eq by auto
    also have "\<dots> = (released valid ?po n < inDegree valid n
       \<and> inDegree valid n \<le> released valid ?po n + count_list ?xs n)"
    proof
      assume "\<exists>j. 0 < j \<and> j \<le> count_list ?xs n \<and> inDegree valid n = released valid ?po n + j"
      then show "released valid ?po n < inDegree valid n
       \<and> inDegree valid n \<le> released valid ?po n + count_list ?xs n" by auto
    next
      assume a: "released valid ?po n < inDegree valid n
       \<and> inDegree valid n \<le> released valid ?po n + count_list ?xs n"
      show "\<exists>j. 0 < j \<and> j \<le> count_list ?xs n \<and> inDegree valid n = released valid ?po n + j"
        using a by (intro exI [of _ "inDegree valid n - released valid ?po n"]) auto
    qed
    finally show ?thesis .
  qed
  have new_valid: "n \<in> fst ` set valid" if "n \<in> ?new" for n
  proof -
    from that have "0 < count_list ?xs n" by auto
    then have "n \<in> set ?xs" using count_list_0_iff [of ?xs n] by auto
    with set_targets show ?thesis by blast
  qed
  have setq': "set (snd (fold decrement ?xs (degrees st, removeAll next ?q)))
      = (set ?q - {next}) \<union> ?new"
    by (simp add: set_fold_decrement)
  have c1: "distinct (snd (fold decrement ?xs (degrees st, removeAll next ?q)))"
    by (rule distinct_fold_decrement) (simp add: dq distinct_removeAll)
  have new_fresh: "n \<notin> set ?q \<union> set ?po" if "n \<in> ?new" for n
    using that member [of n] new_iff [of n] by auto
  have c3: "set (snd (fold decrement ?xs (degrees st, removeAll next ?q))) \<inter> set (?po @ [next]) = {}"
    unfolding setq' using disj new_fresh mem by auto
  have c4: "fst (fold decrement ?xs (degrees st, removeAll next ?q)) n
      = of_nat (inDegree valid n) - of_nat (released valid (?po @ [next]) n)" for n
    by (simp add: fst_fold_decrement deg released_snoc)
  have c5: "(n \<in> set (snd (fold decrement ?xs (degrees st, removeAll next ?q))) \<union> set (?po @ [next]))
      = (n \<in> fst ` set valid \<and> inDegree valid n \<le> released valid (?po @ [next]) n)" for n
  proof -
    have "(n \<in> set (snd (fold decrement ?xs (degrees st, removeAll next ?q))) \<union> set (?po @ [next]))
        = (n \<in> set ?q \<union> set ?po \<or> n \<in> ?new)"
      unfolding setq' using mem by auto
    also have "\<dots> = (n \<in> fst ` set valid \<and> inDegree valid n \<le> released valid (?po @ [next]) n)"
      unfolding member new_iff released_snoc using new_valid [of n] new_iff [of n] by auto
    finally show ?thesis .
  qed
  have c6: "inDegree valid ((?po @ [next]) ! i)
      \<le> released valid (take i (?po @ [next])) ((?po @ [next]) ! i)"
    if "i < length (?po @ [next])" for i
  proof (cases "i < length ?po")
    case True
    then show ?thesis using prefix [OF True] by (simp add: nth_append)
  next
    case False
    with that have "i = length ?po" by simp
    then show ?thesis using next_ready by (simp add: nth_append)
  qed
  show ?thesis
    unfolding orderingInvariant_def
    using c1 dpo' c3 c4 c5 c6 by simp
qed

lemma orderStep_invariant:
  assumes inv: "orderingInvariant valid st"
    and named: "distinct (map fst valid)"
    and bound: "releaseBound valid"
    and order: "queueOrderOK queueOrder"
  shows "orderingInvariant valid (orderStep queueOrder valid st)"
proof -
  obtain dev "next" where scan:
    "scanQueue (\<lambda>name. device (lookupState valid name)) (lastDevice st)
       (queueOrder (passes st) (queue st)) = (dev, next)"
    by (cases "scanQueue (\<lambda>name. device (lookupState valid name)) (lastDevice st)
       (queueOrder (passes st) (queue st))")
  show ?thesis
  proof (cases "next = []")
    case True
    with scan show ?thesis
      by (simp add: orderStep_reset orderingInvariant_reset [OF inv])
  next
    case False
    from scanQueue_chosen [OF scan False] order have "next \<in> set (queue st)"
      by (simp add: queueOrderOK_def)
    from orderingInvariant_select [OF inv named bound this]
    show ?thesis using scan False by (simp add: orderStep_select)
  qed
qed

subsection \<open>Partial correctness and termination of the ordering loop\<close>

lemma orderingLoop_rule:
  assumes run: "orderingLoop queueOrder valid st = Some t"
    and step: "\<And>s. I s \<Longrightarrow> queue s \<noteq> [] \<Longrightarrow> I (orderStep queueOrder valid s)"
    and init: "I st"
  shows "I t \<and> queue t = []"
proof -
  have "queueOrder = queueOrder \<longrightarrow> valid = valid \<longrightarrow> I st \<longrightarrow> I t \<and> queue t = []"
  proof (rule orderingLoop.raw_induct
      [where P = "\<lambda>qo v s y. qo = queueOrder \<longrightarrow> v = valid \<longrightarrow> I s \<longrightarrow> I y \<and> queue y = []",
        OF _ run])
    fix loop qo v s y
    assume IH: "\<And>a b c y. loop a b c = Some y \<Longrightarrow>
        a = queueOrder \<longrightarrow> b = valid \<longrightarrow> I c \<longrightarrow> I y \<and> queue y = []"
      and body: "(if queue s = [] then Some s else loop qo v (orderStep qo v s)) = Some y"
    show "qo = queueOrder \<longrightarrow> v = valid \<longrightarrow> I s \<longrightarrow> I y \<and> queue y = []"
    proof (intro impI)
      assume eq: "qo = queueOrder" "v = valid" and I: "I s"
      show "I y \<and> queue y = []"
      proof (cases "queue s = []")
        case True
        with body I show ?thesis by simp
      next
        case False
        with body have "loop qo v (orderStep qo v s) = Some y" by simp
        from IH [OF this] eq step [OF I False] show ?thesis by simp
      qed
    qed
  qed
  with init show ?thesis by simp
qed

lemma orderingInvariant_names:
  assumes "orderingInvariant valid st"
  shows "set (queue st) \<subseteq> fst ` set valid" "set (primitiveOrder st) \<subseteq> fst ` set valid"
  using assms by (auto simp: orderingInvariant_def)

lemma orderingInvariant_length:
  assumes "orderingInvariant valid st"
  shows "length (primitiveOrder st) \<le> length valid"
proof -
  from assms have d: "distinct (primitiveOrder st)" by (simp add: orderingInvariant_def)
  have "length (primitiveOrder st) = card (set (primitiveOrder st))"
    using d by (simp add: distinct_card)
  also have "\<dots> \<le> card (fst ` set valid)"
    using orderingInvariant_names(2) [OF assms] by (intro card_mono) auto
  also have "\<dots> \<le> length valid"
    by (metis card_length length_map list.set_map)
  finally show ?thesis .
qed

lemma orderingLoop_terminates:
  assumes inv: "orderingInvariant valid st"
    and named: "namedModules valid"
    and bound: "releaseBound valid"
    and order: "queueOrderOK queueOrder"
  shows "\<exists>t. orderingLoop queueOrder valid st = Some t"
  using inv
proof (induction "2 * (length valid - length (primitiveOrder st))
    + (if lastDevice st = Device_None then 0 else 1 :: nat)" arbitrary: st rule: less_induct)
  case less
  from named have dist: "distinct (map fst valid)" by (simp add: namedModules_def)
  show ?case
  proof (cases "queue st = []")
    case True
    then show ?thesis by (simp add: orderingLoop.simps)
  next
    case False
    let ?st' = "orderStep queueOrder valid st"
    have inv': "orderingInvariant valid ?st'"
      by (rule orderStep_invariant [OF less.prems dist bound order])
    obtain dev "next" where scan:
      "scanQueue (\<lambda>name. device (lookupState valid name)) (lastDevice st)
         (queueOrder (passes st) (queue st)) = (dev, next)"
      by (cases "scanQueue (\<lambda>name. device (lookupState valid name)) (lastDevice st)
         (queueOrder (passes st) (queue st))")
    have smaller: "2 * (length valid - length (primitiveOrder ?st'))
        + (if lastDevice ?st' = Device_None then 0 else 1 :: nat)
      < 2 * (length valid - length (primitiveOrder st))
        + (if lastDevice st = Device_None then 0 else 1 :: nat)"
    proof (cases "next = []")
      case True
      have names: "[] \<notin> set (queueOrder (passes st) (queue st))"
      proof
        assume "[] \<in> set (queueOrder (passes st) (queue st))"
        with order have "[] \<in> set (queue st)" by (simp add: queueOrderOK_def)
        with orderingInvariant_names(1) [OF less.prems] have "[] \<in> fst ` set valid" by auto
        with named show False by (auto simp: namedModules_def list_all_iff)
      qed
      have nonempty: "queueOrder (passes st) (queue st) \<noteq> []"
      proof
        assume "queueOrder (passes st) (queue st) = []"
        then have "set (queueOrder (passes st) (queue st)) = {}" by simp
        with order False show False by (simp add: queueOrderOK_def)
      qed
      from scan True have "lastDevice st \<noteq> Device_None"
        using scanQueue_empty [OF _ names nonempty] by simp
      then show ?thesis using scan True by (simp add: orderStep_reset)
    next
      case False
      have po: "primitiveOrder ?st' = primitiveOrder st @ [next]"
        using scan False by (simp add: orderStep_select)
      from orderingInvariant_length [OF inv'] po
      have "Suc (length (primitiveOrder st)) \<le> length valid" by simp
      then show ?thesis unfolding po by (simp split: if_splits) linarith
    qed
    from less.hyps [OF smaller inv'] obtain t where "orderingLoop queueOrder valid ?st' = Some t" ..
    with False show ?thesis by (subst orderingLoop.simps) simp
  qed
qed

subsection \<open>A ready module has all its producers before it\<close>

lemma sum_list_if_Suc:
  "sum_list (map (\<lambda>i. if p i then Suc (a i) else a i) xs)
   = sum_list (map a xs) + length (filter p xs)"
  by (induction xs) auto

lemma sum_list_swap_count:
  "sum_list (map (\<lambda>h. length (filter (\<lambda>i. f i = h) xs)) hs)
   = sum_list (map (\<lambda>i. count_list hs (f i)) xs)"
proof (induction hs)
  case Nil
  show ?case by simp
next
  case (Cons h hs)
  have "sum_list (map (\<lambda>i. count_list (h # hs) (f i)) xs)
      = sum_list (map (\<lambda>i. if f i = h then Suc (count_list hs (f i)) else count_list hs (f i)) xs)"
    by (intro arg_cong [where f = sum_list] map_cong) auto
  then show ?case by (simp add: sum_list_if_Suc Cons.IH)
qed

lemma sum_list_le_length:
  "\<forall>x \<in> set xs. g x \<le> Suc 0 \<Longrightarrow> sum_list (map g xs) \<le> length xs"
  by (induction xs) auto

lemma distinct_count_le_one: "distinct xs \<Longrightarrow> count_list xs x \<le> Suc 0"
  by (induction xs) auto

lemma sum_list_all_one:
  "\<forall>x \<in> set xs. g x \<le> Suc 0 \<Longrightarrow> length xs \<le> sum_list (map g xs)
   \<Longrightarrow> x \<in> set xs \<Longrightarrow> g x = Suc 0"
proof (induction xs)
  case Nil
  then show ?case by simp
next
  case (Cons a xs)
  from Cons.prems(1) have all: "\<forall>x \<in> set xs. g x \<le> Suc 0" and a: "g a \<le> Suc 0"
    by simp_all
  have le: "sum_list (map g xs) \<le> length xs"
    by (rule sum_list_le_length [OF all])
  from Cons.prems(2) le a have ga: "g a = Suc 0" and rest: "length xs \<le> sum_list (map g xs)"
    by auto
  show ?case
  proof (cases "x = a")
    case True
    with ga show ?thesis by simp
  next
    case False
    with Cons.prems(3) have "x \<in> set xs" by simp
    from Cons.IH [OF all rest this] show ?thesis .
  qed
qed

text \<open>The locale hashes produced by the modules of a list of names.\<close>

lemma outputHashes_names:
  "distinct (map fst valid) \<Longrightarrow>
   outputHashes valid
   = concat (map (\<lambda>n. map (locale_hash \<circ> snd) (activeOutputs (lookupState valid n))) (map fst valid))"
proof -
  assume d: "distinct (map fst valid)"
  have "map (\<lambda>(name, state). map (locale_hash \<circ> snd) (activeOutputs state)) valid
      = map ((\<lambda>n. map (locale_hash \<circ> snd) (activeOutputs (lookupState valid n))) \<circ> fst) valid"
    by (rule map_cong) (auto simp: lookupState_mem [OF d])
  then show ?thesis unfolding outputHashes_def map_map by (rule arg_cong)
qed

lemma count_produced_le_one:
  assumes d: "distinct (map fst valid)" and single: "singleProducer valid"
    and pre: "distinct pre" "set pre \<subseteq> fst ` set valid"
  shows "count_list (concat (map (\<lambda>n. map (locale_hash \<circ> snd) (activeOutputs (lookupState valid n))) pre)) h \<le> Suc 0"
proof -
  let ?f = "\<lambda>n. map (locale_hash \<circ> snd) (activeOutputs (lookupState valid n))"
  have "count_list (concat (map ?f pre)) h = sum_list (map (\<lambda>n. count_list (?f n) h) pre)"
    by (simp add: count_list_concat comp_def)
  also have "\<dots> \<le> sum_list (map (\<lambda>n. count_list (?f n) h) (map fst valid))"
    using pre d by (intro sum_list_distinct_subset) auto
  also have "\<dots> = count_list (outputHashes valid) h"
    by (simp add: outputHashes_names [OF d] count_list_concat comp_def)
  also have "\<dots> \<le> Suc 0"
    using single by (simp add: singleProducer_def distinct_count_le_one)
  finally show ?thesis .
qed

lemma released_as_inputs:
  assumes d: "distinct (map fst valid)"
  shows "released valid pre m
    = sum_list (map (\<lambda>(pin, meta).
        count_list (concat (map (\<lambda>n. map (locale_hash \<circ> snd) (activeOutputs (lookupState valid n))) pre))
          (locale_hash meta))
      (activeInputs (lookupState valid m)))"
proof -
  let ?ins = "activeInputs (lookupState valid m)"
  let ?f = "\<lambda>n. map (locale_hash \<circ> snd) (activeOutputs (lookupState valid n))"
  have tgt: "count_list (targets valid p) m
      = sum_list (map (\<lambda>h. length (filter (\<lambda>i. (locale_hash \<circ> snd) i = h) ?ins)) (?f p))" for p
    by (simp add: targets_def count_list_concat comp_def split_def count_moduleInputCache [OF d])
  have "released valid pre m
      = sum_list (map (\<lambda>h. length (filter (\<lambda>i. (locale_hash \<circ> snd) i = h) ?ins)) (concat (map ?f pre)))"
    unfolding released_sum tgt by (induction pre) auto
  also have "\<dots> = sum_list (map (\<lambda>i. count_list (concat (map ?f pre)) ((locale_hash \<circ> snd) i)) ?ins)"
    by (rule sum_list_swap_count)
  finally show ?thesis by (simp add: split_def comp_def)
qed

lemma ready_has_producers:
  assumes d: "distinct (map fst valid)" and single: "singleProducer valid"
    and pre: "distinct pre" "set pre \<subseteq> fst ` set valid"
    and ready: "inDegree valid m \<le> released valid pre m"
    and cons: "consumes valid m h"
  shows "\<exists>p \<in> set pre. produces valid p h"
proof -
  let ?ins = "activeInputs (lookupState valid m)"
  let ?f = "\<lambda>n. map (locale_hash \<circ> snd) (activeOutputs (lookupState valid n))"
  let ?g = "\<lambda>i. count_list (concat (map ?f pre)) ((locale_hash \<circ> snd) i)"
  from cons obtain i where i: "i \<in> set ?ins" "h = (locale_hash \<circ> snd) i"
    by (auto simp: consumes_def contains_set)
  have le: "\<forall>x \<in> set ?ins. ?g x \<le> Suc 0"
    using count_produced_le_one [OF d single pre] by blast
  have "length ?ins \<le> sum_list (map ?g ?ins)"
    using ready unfolding inDegree_def released_as_inputs [OF d] by (simp add: split_def comp_def)
  from sum_list_all_one [of ?ins ?g, OF le this i(1)] have "?g i = Suc 0" .
  then have "h \<in> set (concat (map ?f pre))"
    using count_list_0_iff [of "concat (map ?f pre)" h] i(2) by auto
  then show ?thesis by (auto simp: produces_def contains_set)
qed

subsection \<open>The phase as a whole\<close>

lemma arrangeDependencyOrder_SUCCESS:
  assumes "arrangeDependencyOrder queueOrder s = Some (SUCCESS, s')"
  obtains st valid' runs where
    "orderingLoop queueOrder (validComputeModuleStates s)
       (initialOrdering (validComputeModuleStates s)) = Some st"
    "length (primitiveOrder st) = length (validComputeModuleStates s)"
    "assignClusters (moduleEdgesCache (validComputeModuleStates s))
       (map fst (validComputeModuleStates s)) 0 [] (validComputeModuleStates s) = Some valid'"
    "splitRuns valid' Device_None 0 (primitiveOrder st) [] = Some runs"
    "s' = s\<lparr>executionOrder := primitiveOrder st, deviceExecutionOrder := runs,
             validComputeModuleStates := valid'\<rparr>"
  using assms
  by (auto simp: arrangeDependencyOrder_def Let_def split: option.splits if_splits)

lemma orderingLoop_final:
  assumes d: "distinct (map fst valid)" and bound: "releaseBound valid"
    and order: "queueOrderOK queueOrder"
    and run: "orderingLoop queueOrder valid (initialOrdering valid) = Some st"
  shows "orderingInvariant valid st \<and> queue st = []"
  by (rule orderingLoop_rule [OF run orderStep_invariant [OF _ d bound order]
        orderingInvariant_initial [OF d]])

lemma complete_order:
  assumes d: "distinct (map fst valid)" and inv: "orderingInvariant valid st"
    and len: "length (primitiveOrder st) = length valid"
  shows "set (primitiveOrder st) = fst ` set valid"
proof (rule card_subset_eq)
  show "finite (fst ` set valid)" by simp
  show "set (primitiveOrder st) \<subseteq> fst ` set valid"
    by (rule orderingInvariant_names(2) [OF inv])
  have "card (set (primitiveOrder st)) = length (primitiveOrder st)"
    using inv by (simp add: orderingInvariant_def distinct_card)
  moreover have "card (fst ` set valid) = length valid"
    using d by (metis distinct_card length_map list.set_map)
  ultimately show "card (set (primitiveOrder st)) = card (fst ` set valid)"
    using len by simp
qed

lemma producers_before:
  assumes d: "distinct (map fst valid)" and single: "singleProducer valid"
    and inv: "orderingInvariant valid st"
    and j: "j < length (primitiveOrder st)"
    and cons: "consumes valid (primitiveOrder st ! j) h"
  shows "\<exists>i<j. produces valid (primitiveOrder st ! i) h"
proof -
  let ?po = "primitiveOrder st"
  from inv have dpo: "distinct ?po"
    and ready: "inDegree valid (?po ! j) \<le> released valid (take j ?po) (?po ! j)"
    using j by (simp_all add: orderingInvariant_def)
  have pre: "distinct (take j ?po)" "set (take j ?po) \<subseteq> fst ` set valid"
    using dpo orderingInvariant_names(2) [OF inv] set_take_subset [of j ?po] by auto
  from ready_has_producers [OF d single pre ready cons]
  obtain p where p: "p \<in> set (take j ?po)" "produces valid p h" by blast
  from p(1) obtain i where "i < length (take j ?po)" "take j ?po ! i = p"
    by (auto simp: in_set_conv_nth)
  with j have "i < j" "?po ! i = p" by simp_all
  with p(2) show ?thesis by blast
qed

subsection \<open>Passes of the ordering loop\<close>

lemma orderingAfter_invariant:
  assumes d: "distinct (map fst valid)" and bound: "releaseBound valid"
    and order: "queueOrderOK queueOrder"
  shows "orderingInvariant valid (orderingAfter queueOrder valid k)"
  unfolding orderingAfter_def
  by (induction k)
    (simp_all add: orderingInvariant_initial [OF d] orderStep_invariant [OF _ d bound order])

lemma select_or_reset:
  assumes inv: "orderingInvariant valid st"
    and named: "namedModules valid" and bound: "releaseBound valid"
    and order: "queueOrderOK queueOrder"
    and nonempty: "queue st \<noteq> []"
  shows "selectsModule queueOrder valid st
       \<or> (resetsDevice queueOrder valid st
          \<and> selectsModule queueOrder valid (orderStep queueOrder valid st))"
proof -
  from named have d: "distinct (map fst valid)" by (simp add: namedModules_def)
  have selects: "selectsModule queueOrder valid t"
    if inv_t: "orderingInvariant valid t"
      and scan: "scanQueue (\<lambda>name. device (lookupState valid name)) (lastDevice t)
         (queueOrder (passes t) (queue t)) = (dev, next)"
      and chosen: "next \<noteq> []" for t dev "next"
  proof -
    have mem: "next \<in> set (queue t)"
      using scanQueue_chosen [OF scan chosen] order by (simp add: queueOrderOK_def)
    have po: "primitiveOrder (orderStep queueOrder valid t) = primitiveOrder t @ [next]"
      using scan chosen by (simp add: orderStep_select)
    have "orderingInvariant valid (orderStep queueOrder valid t)"
      by (rule orderStep_invariant [OF inv_t d bound order])
    then have "set (queue (orderStep queueOrder valid t))
        \<inter> set (primitiveOrder (orderStep queueOrder valid t)) = {}"
      by (simp add: orderingInvariant_def)
    with po have "next \<notin> set (queue (orderStep queueOrder valid t))" by auto
    with mem po show ?thesis
      unfolding selectsModule_def contains_set by blast
  qed
  obtain dev "next" where scan:
    "scanQueue (\<lambda>name. device (lookupState valid name)) (lastDevice st)
       (queueOrder (passes st) (queue st)) = (dev, next)"
    by (cases "scanQueue (\<lambda>name. device (lookupState valid name)) (lastDevice st)
       (queueOrder (passes st) (queue st))")
  show ?thesis
  proof (cases "next = []")
    case False
    from selects [OF inv scan False] show ?thesis ..
  next
    case True
    let ?st' = "st\<lparr>lastDevice := Device_None, passes := Suc (passes st)\<rparr>"
    have step: "orderStep queueOrder valid st = ?st'"
      using scan True by (simp add: orderStep_reset)
    have inv': "orderingInvariant valid ?st'"
      by (rule orderingInvariant_reset [OF inv])
    obtain x xs where list: "queueOrder (passes ?st') (queue ?st') = x # xs"
    proof (cases "queueOrder (passes ?st') (queue ?st')")
      case Nil
      then have "set (queueOrder (passes ?st') (queue ?st')) = {}" by simp
      with order nonempty show ?thesis by (simp add: queueOrderOK_def)
    next
      case (Cons x xs)
      with that show ?thesis .
    qed
    have "set (queueOrder (passes ?st') (queue ?st')) = set (queue st)"
      using order by (simp add: queueOrderOK_def)
    with list have "x \<in> set (queue st)" by auto
    with orderingInvariant_names(1) [OF inv] have "x \<in> fst ` set valid" by auto
    with named have x: "x \<noteq> []" by (auto simp: namedModules_def list_all_iff)
    have scan': "scanQueue (\<lambda>name. device (lookupState valid name)) (lastDevice ?st')
         (queueOrder (passes ?st') (queue ?st')) = (device (lookupState valid x), x)"
      unfolding list by simp
    from selects [OF inv' scan' x] step show ?thesis
      by (simp add: resetsDevice_def)
  qed
qed

lemma spin_on_empty_name:
  assumes "orderingLoop insertionOrder valid st = Some t"
  shows "queue st \<noteq> [[]]"
proof -
  have "insertionOrder = insertionOrder \<longrightarrow> queue st \<noteq> [[]]"
  proof (rule orderingLoop.raw_induct
      [where P = "\<lambda>qo v s y. qo = insertionOrder \<longrightarrow> queue s \<noteq> [[]]", OF _ assms])
    fix loop qo v s y
    assume IH: "\<And>a b c y. loop a b c = Some y \<Longrightarrow> a = insertionOrder \<longrightarrow> queue c \<noteq> [[]]"
      and body: "(if queue s = [] then Some s else loop qo v (orderStep qo v s)) = Some y"
    show "qo = insertionOrder \<longrightarrow> queue s \<noteq> [[]]"
    proof (intro impI notI)
      assume qo: "qo = insertionOrder" and q: "queue s = [[]]"
      have "snd (scanQueue (\<lambda>name. device (lookupState v name)) (lastDevice s) [[]]) = []"
        by (simp add: Let_def)
      then have "queue (orderStep insertionOrder v s) = [[]]"
        by (simp add: orderStep_def insertionOrder_def q split_def)
      moreover from body q qo
      have "loop insertionOrder v (orderStep insertionOrder v s) = Some y" by simp
      ultimately show False using IH by blast
    qed
  qed
  then show ?thesis by simp
qed

section \<open>Properties of the device runs\<close>

lemma device_bits_differ:
  "(device_bits a AND device_bits b \<noteq> device_bits b) = (a \<noteq> b)"
  by (cases a; cases b; simp)

lemma splitRuns_Cons:
  "splitRuns valid pd pc (name # names) runs =
     (if device (lookupState valid name) \<noteq> pd \<or> clusterId (lookupState valid name) \<noteq> pc
      then splitRuns valid (device (lookupState valid name)) (clusterId (lookupState valid name))
             names (runs @ [(device (lookupState valid name), [name])])
      else if runs = [] then None
      else splitRuns valid (device (lookupState valid name)) (clusterId (lookupState valid name))
             names (butlast runs @ [(fst (last runs), snd (last runs) @ [name])]))"
  by (simp add: Let_def device_bits_differ)

lemma deviceRuns_Nil: "deviceRuns valid []"
  by (simp add: deviceRuns_def)

lemma deviceRuns_new:
  assumes wf: "deviceRuns valid runs"
    and last: "runs \<noteq> [] \<Longrightarrow> \<not> sameRun valid (last (snd (last runs))) name"
  shows "deviceRuns valid (runs @ [(device (lookupState valid name), [name])])"
  using wf last
  by (auto simp: deviceRuns_def successively_append_iff split_def)

lemma deviceRuns_extend:
  assumes wf: "deviceRuns valid runs" and ne: "runs \<noteq> []"
    and same: "sameRun valid (last (snd (last runs))) name"
  shows "deviceRuns valid (butlast runs @ [(fst (last runs), snd (last runs) @ [name])])"
proof -
  obtain d run where lastrun: "last runs = (d, run)" by (cases "last runs")
  from ne have runs: "runs = butlast runs @ [(d, run)]" by (simp add: lastrun [symmetric])
  from wf have parts: "deviceRuns valid (butlast runs @ [(d, run)])" using runs by simp
  then have run: "run \<noteq> []" "list_all (\<lambda>name. device (lookupState valid name) = d) run"
      "successively (sameRun valid) run"
    by (auto simp: deviceRuns_def)
  from run(1,2) have dlast: "device (lookupState valid (last run)) = d"
    by (simp add: list_all_iff)
  from same lastrun have s: "sameRun valid (last run) name" by simp
  then have dname: "device (lookupState valid name) = d"
    using dlast by (simp add: sameRun_def)
  have hd: "hd (run @ [name]) = hd run" using run(1) by simp
  have "deviceRuns valid (butlast runs @ [(d, run @ [name])])"
    using parts run s dname hd
    by (auto simp: deviceRuns_def successively_append_iff split_def)
  then show ?thesis by (simp add: lastrun)
qed

lemma splitRuns_deviceRuns:
  assumes "splitRuns valid pd pc names runs = Some result"
    and "deviceRuns valid runs"
    and "runs \<noteq> [] \<Longrightarrow> device (lookupState valid (last (snd (last runs)))) = pd
                      \<and> clusterId (lookupState valid (last (snd (last runs)))) = pc"
  shows "deviceRuns valid result \<and> concat (map snd result) = concat (map snd runs) @ names"
  using assms
proof (induction names arbitrary: pd pc runs)
  case Nil
  then show ?case by simp
next
  case (Cons name names)
  let ?d = "device (lookupState valid name)" and ?c = "clusterId (lookupState valid name)"
  show ?case
  proof (cases "?d \<noteq> pd \<or> ?c \<noteq> pc")
    case True
    let ?runs = "runs @ [(?d, [name])]"
    from Cons.prems(1) True have run: "splitRuns valid ?d ?c names ?runs = Some result"
      by (simp add: splitRuns_Cons del: splitRuns.simps)
    have wf: "deviceRuns valid ?runs"
    proof (rule deviceRuns_new [OF Cons.prems(2)])
      assume "runs \<noteq> []"
      with Cons.prems(3) True show "\<not> sameRun valid (last (snd (last runs))) name"
        by (auto simp: sameRun_def)
    qed
    from Cons.IH [OF run wf] show ?thesis by simp
  next
    case False
    with Cons.prems(1) have ne: "runs \<noteq> []"
      by (auto simp: splitRuns_Cons simp del: splitRuns.simps split: if_splits)
    let ?runs = "butlast runs @ [(fst (last runs), snd (last runs) @ [name])]"
    from Cons.prems(1) False ne have run: "splitRuns valid ?d ?c names ?runs = Some result"
      by (simp add: splitRuns_Cons del: splitRuns.simps)
    from Cons.prems(3) [OF ne] False
    have same: "sameRun valid (last (snd (last runs))) name"
      by (simp add: sameRun_def)
    have wf: "deviceRuns valid ?runs"
      by (rule deviceRuns_extend [OF Cons.prems(2) ne same])
    have cat: "concat (map snd ?runs) = concat (map snd runs) @ [name]"
    proof -
      have "concat (map snd runs) = concat (map snd (butlast runs @ [last runs]))"
        using ne by simp
      then show ?thesis by simp
    qed
    from Cons.IH [OF run wf] cat show ?thesis by simp
  qed
qed

section \<open>Properties of the public operations\<close>

lemma removeInactive_frame:
  "running (snd (removeInactive s)) = running s"
  "graphs (snd (removeInactive s)) = graphs s"
  "presentModuleStates (snd (removeInactive s)) = presentModuleStates s"
  "computeModuleStates (snd (removeInactive s))
     = map (\<lambda>(name, state). (name, generateIO (countHashes (computeModuleStates s)) state))
         (computeModuleStates s)"
  "fst (removeInactive s) = SUCCESS"
  by (simp_all add: removeInactive_def Let_def)

lemma arrangeDependencyOrder_frame:
  assumes "arrangeDependencyOrder queueOrder s = Some (r, s')"
  shows "running s' = running s" "graphs s' = graphs s"
    "presentModuleStates s' = presentModuleStates s"
    "computeModuleStates s' = computeModuleStates s"
  using assms
  by (auto simp: arrangeDependencyOrder_def Let_def split: option.splits if_splits)

lemma createExecutionGraphs_frame:
  "running (snd (createExecutionGraphs s)) = running s"
  "presentModuleStates (snd (createExecutionGraphs s)) = presentModuleStates s"
  "computeModuleStates (snd (createExecutionGraphs s)) = computeModuleStates s"
  by (simp_all add: createExecutionGraphs_def)

lemma rebuild_frame:
  assumes "rebuild env s = Some (r, s')"
  shows "running s' = running s"
    "presentModuleStates s' = presentModuleStates s"
    "computeModuleStates s'
     = map (\<lambda>(name, state). (name, generateIO (countHashes (computeModuleStates s)) state))
         (computeModuleStates s)"
proof -
  obtain s1 where s1: "removeInactive s = (SUCCESS, s1)"
    using removeInactive_frame(5) [of s] by (cases "removeInactive s") simp
  from assms s1 obtain r2 s2 where
    arr: "arrangeDependencyOrder (readyQueueOrder env) s1 = Some (r2, s2)"
    and rest: "s' = s2 \<or> s' = snd (createExecutionGraphs s2)"
    by (auto simp: rebuild_def checkSequenceValidity_def split_def Let_def
        split: option.splits if_splits)
  have s1_eq: "s1 = snd (removeInactive s)" using s1 by simp
  from rest show "running s' = running s"
    by (auto simp: createExecutionGraphs_frame arrangeDependencyOrder_frame [OF arr]
        s1_eq removeInactive_frame)
  from rest show "presentModuleStates s' = presentModuleStates s"
    by (auto simp: createExecutionGraphs_frame arrangeDependencyOrder_frame [OF arr]
        s1_eq removeInactive_frame)
  from rest show "computeModuleStates s'
     = map (\<lambda>(name, state). (name, generateIO (countHashes (computeModuleStates s)) state))
         (computeModuleStates s)"
    by (auto simp: createExecutionGraphs_frame arrangeDependencyOrder_frame [OF arr]
        s1_eq removeInactive_frame)
qed

lemma map_of_generateIO:
  "map_of (map (\<lambda>(name, state). (name, generateIO valid state)) states) name
   = map_option (generateIO valid) (map_of states name)"
  by (induction states) auto

lemma generateIO_fields [simp]:
  "module (generateIO valid state) = module state"
  "device (generateIO valid state) = device state"
  by (simp_all add: generateIO_def)

lemma rebuild_keeps_registration:
  assumes "rebuild env s = Some (r, s')"
    and "map_of (computeModuleStates s) name = Some state"
  shows "\<exists>state'. map_of (computeModuleStates s') name = Some state'
      \<and> module state' = module state \<and> device state' = device state
      \<and> inputMap state' = inputMap state \<and> outputMap state' = outputMap state"
  using assms(2) by (simp add: rebuild_frame(3) [OF assms(1)] map_of_generateIO)

lemma registerModule_compute:
  "map_of (computeModuleStates (registerModule name d inputs outputs (Some c) present s)) name
   = Some ((lookupState (computeModuleStates s) name)
       \<lparr>module := c, device := d, inputMap := inputs, outputMap := outputs\<rparr>)"
  by (simp add: registerModule_def registerCompute_def update_conv')

lemma registerModule_present:
  "map_of (presentModuleStates (registerModule name d inputs outputs cap (Some p) s)) name
   = Some \<lparr>present_module = p, present_inputMap = inputs, present_outputMap = outputs\<rparr>"
  by (simp add: registerModule_def registerPresent_def update_conv')

lemma registerModule_running [simp]:
  "running (registerModule name d inputs outputs cap present s) = running s"
  by (simp add: registerModule_def)

subsection \<open>The compute pass\<close>

lemma computePass_eq:
  "computePass run gs =
     (case find (\<lambda>g. run g \<noteq> SUCCESS) gs of
        None \<Rightarrow> (SUCCESS, gs)
      | Some g \<Rightarrow> (run g, takeWhile (\<lambda>g. run g = SUCCESS) gs @ [g]))"
  by (induction gs) (auto split: option.splits)

section \<open>Dependency cycles\<close>

lemma dependencyEdges_mem:
  assumes d: "distinct (map fst valid)" and e: "(p, m) \<in> set (dependencyEdges valid)"
  shows "p \<in> fst ` set valid \<and> m \<in> fst ` set valid
       \<and> (\<exists>h. produces valid p h \<and> consumes valid m h)"
proof -
  from e obtain ps ms out inp where mem: "(p, ps) \<in> set valid" "(m, ms) \<in> set valid"
    and ports: "out \<in> set (activeOutputs ps)" "inp \<in> set (activeInputs ms)"
      "locale_hash (snd out) = locale_hash (snd inp)"
    by (auto simp: dependencyEdges_def feeds_def list_ex_iff)
  have "produces valid p (locale_hash (snd out))"
    using ports(1) by (auto simp: produces_def contains_set lookupState_mem [OF d mem(1)])
  moreover have "consumes valid m (locale_hash (snd out))"
    using ports(2,3) by (auto simp: consumes_def contains_set lookupState_mem [OF d mem(2)])
  ultimately show ?thesis using mem by force
qed

lemma distinct_concat_unique:
  "distinct (concat (map f xs)) \<Longrightarrow> x \<in> set xs \<Longrightarrow> y \<in> set xs
   \<Longrightarrow> h \<in> set (f x) \<Longrightarrow> h \<in> set (f y) \<Longrightarrow> x = y"
  by (induction xs) auto

lemma producer_unique:
  assumes d: "distinct (map fst valid)" and single: "singleProducer valid"
    and p: "p \<in> fst ` set valid" "produces valid p h"
    and q: "q \<in> fst ` set valid" "produces valid q h"
  shows "p = q"
proof -
  let ?f = "\<lambda>n. map (locale_hash \<circ> snd) (activeOutputs (lookupState valid n))"
  have "distinct (concat (map ?f (map fst valid)))"
    using single by (simp add: singleProducer_def outputHashes_names [OF d])
  moreover have "p \<in> set (map fst valid)" "q \<in> set (map fst valid)"
    using p(1) q(1) by simp_all
  moreover have "h \<in> set (?f p)" "h \<in> set (?f q)"
    using p(2) q(2) by (simp_all add: produces_def contains_set)
  ultimately show ?thesis by (rule distinct_concat_unique)
qed

lemma ordered_edges:
  assumes d: "distinct (map fst valid)" and single: "singleProducer valid"
    and inv: "orderingInvariant valid st"
    and complete: "set (primitiveOrder st) = fst ` set valid"
    and path: "(a, b) \<in> (set (dependencyEdges valid))\<^sup>+"
  shows "\<exists>i j. i < j \<and> j < length (primitiveOrder st)
       \<and> primitiveOrder st ! i = a \<and> primitiveOrder st ! j = b"
  using path
proof (induction rule: trancl_induct)
  case (base m)
  from dependencyEdges_mem [OF d base] obtain h where
    a: "a \<in> fst ` set valid" "produces valid a h" and m: "m \<in> fst ` set valid" "consumes valid m h"
    by blast
  from m(1) complete have "m \<in> set (primitiveOrder st)" by simp
  then obtain j where j: "j < length (primitiveOrder st)" "primitiveOrder st ! j = m"
    by (auto simp: in_set_conv_nth)
  from producers_before [OF d single inv j(1)] m(2) j(2)
  obtain i where i: "i < j" "produces valid (primitiveOrder st ! i) h" by auto
  have "primitiveOrder st ! i \<in> fst ` set valid"
    using i(1) j(1) complete by (metis less_trans nth_mem)
  from producer_unique [OF d single this i(2) a] i(1) j show ?case by blast
next
  case (step m n)
  from step.IH obtain i j where ij: "i < j" "j < length (primitiveOrder st)"
    "primitiveOrder st ! i = a" "primitiveOrder st ! j = m" by blast
  from dependencyEdges_mem [OF d step.hyps(2)] obtain h where
    m: "m \<in> fst ` set valid" "produces valid m h" and n: "n \<in> fst ` set valid" "consumes valid n h"
    by blast
  from n(1) complete have "n \<in> set (primitiveOrder st)" by simp
  then obtain k where k: "k < length (primitiveOrder st)" "primitiveOrder st ! k = n"
    by (auto simp: in_set_conv_nth)
  from producers_before [OF d single inv k(1)] n(2) k(2)
  obtain l where l: "l < k" "produces valid (primitiveOrder st ! l) h" by auto
  have "primitiveOrder st ! l \<in> fst ` set valid"
    using l(1) k(1) complete by (metis less_trans nth_mem)
  from producer_unique [OF d single this l(2) m] have "primitiveOrder st ! l = m" .
  moreover from inv have "distinct (primitiveOrder st)" by (simp add: orderingInvariant_def)
  ultimately have "l = j"
    using ij(2,4) l(1) k(1) nth_eq_iff_index_eq [of "primitiveOrder st" l j] by simp
  with ij l(1) k show ?case by (metis less_trans)
qed

lemma cyclic_incomplete:
  assumes d: "distinct (map fst valid)" and single: "singleProducer valid"
    and inv: "orderingInvariant valid st" and cyc: "cyclic valid"
  shows "length (primitiveOrder st) \<noteq> length valid"
proof
  assume len: "length (primitiveOrder st) = length valid"
  have complete: "set (primitiveOrder st) = fst ` set valid"
    by (rule complete_order [OF d inv len])
  from cyc obtain m where "(m, m) \<in> (set (dependencyEdges valid))\<^sup>+"
    by (auto simp: cyclic_def)
  from ordered_edges [OF d single inv complete this] obtain i j where
    "i < j" "j < length (primitiveOrder st)" "primitiveOrder st ! i = primitiveOrder st ! j"
    by auto
  moreover from inv have "distinct (primitiveOrder st)" by (simp add: orderingInvariant_def)
  ultimately show False by (simp add: nth_eq_iff_index_eq)
qed

lemma arrangeDependencyOrder_cyclic:
  assumes named: "namedModules (validComputeModuleStates s)"
    and single: "singleProducer (validComputeModuleStates s)"
    and bound: "releaseBound (validComputeModuleStates s)"
    and order: "queueOrderOK queueOrder"
    and cyc: "cyclic (validComputeModuleStates s)"
  shows "\<exists>s'. arrangeDependencyOrder queueOrder s = Some (FATAL, s')
       \<and> length (executionOrder s') \<noteq> length (validComputeModuleStates s')
       \<and> graphs s' = graphs s"
proof -
  let ?valid = "validComputeModuleStates s"
  from named have d: "distinct (map fst ?valid)" by (simp add: namedModules_def)
  from orderingLoop_terminates [OF orderingInvariant_initial [OF d] named bound order]
  obtain st where loop: "orderingLoop queueOrder ?valid (initialOrdering ?valid) = Some st" ..
  from orderingLoop_final [OF d bound order loop] have inv: "orderingInvariant ?valid st" ..
  from cyclic_incomplete [OF d single inv cyc]
  have "length (primitiveOrder st) \<noteq> length ?valid" .
  with loop show ?thesis
    by (simp add: arrangeDependencyOrder_def Let_def)
qed

section \<open>Pruning a state that was pruned before\<close>

subsection \<open>Promoting the same ports twice\<close>

lemma update_commute_present:
  "k \<in> fst ` set al \<Longrightarrow> k' \<noteq> k \<Longrightarrow>
   AList.update k' v' (AList.update k v al) = AList.update k v (AList.update k' v' al)"
  by (induction al) auto

lemma keys_promote: "fst ` set a \<subseteq> fst ` set (promote valid m a)"
proof (induction m arbitrary: a)
  case Nil
  show ?case by (simp add: promote_Nil)
next
  case (Cons p m)
  obtain k v where p: "p = (k, v)" by (cases p)
  have "fst ` set a \<subseteq> fst ` set (if 1 < valid (hash v) then AList.update k v a else a)"
    using dom_update [of k v a] by auto
  also have "\<dots> \<subseteq> fst ` set (promote valid ((k, v) # m) a)"
    unfolding promote_Cons by (rule Cons.IH)
  finally show ?case unfolding p .
qed

lemma map_of_promote_unpromoted:
  "(\<And>w. (k, w) \<in> set m \<Longrightarrow> \<not> 1 < valid (hash w)) \<Longrightarrow>
   map_of (promote valid m a) k = map_of a k"
proof (induction m arbitrary: a)
  case Nil
  show ?case by (simp add: promote_Nil)
next
  case (Cons p m)
  obtain k' v where p: "p = (k', v)" by (cases p)
  have rest: "map_of (promote valid m b) k = map_of b k" for b
    by (rule Cons.IH) (simp add: Cons.prems)
  show ?case unfolding p promote_Cons rest
    using Cons.prems [of v] p by (auto simp: update_conv')
qed

lemma promote_overwritten:
  "k \<in> fst ` set a \<Longrightarrow> (k, w) \<in> set m \<Longrightarrow> 1 < valid (hash w) \<Longrightarrow>
   promote valid m (AList.update k v a) = promote valid m a"
proof (induction m arbitrary: a)
  case Nil
  then show ?case by simp
next
  case (Cons p m)
  obtain k' v' where p: "p = (k', v')" by (cases p)
  show ?case
  proof (cases "1 < valid (hash v')")
    case False
    with Cons.prems p have "(k, w) \<in> set m" by auto
    from Cons.IH [OF Cons.prems(1) this Cons.prems(3)] False show ?thesis
      unfolding p by (simp add: promote_Cons)
  next
    case True
    show ?thesis
    proof (cases "k' = k")
      case same: True
      with True show ?thesis unfolding p by (simp add: promote_Cons)
    next
      case other: False
      with Cons.prems p have mem: "(k, w) \<in> set m" by auto
      have present: "k \<in> fst ` set (AList.update k' v' a)"
        using Cons.prems(1) dom_update [of k' v' a] by blast
      have "promote valid ((k', v') # m) (AList.update k v a)
          = promote valid m (AList.update k v (AList.update k' v' a))"
        using True by (simp add: promote_Cons update_commute_present [OF Cons.prems(1) other])
      also have "\<dots> = promote valid m (AList.update k' v' a)"
        by (rule Cons.IH [OF present mem Cons.prems(3)])
      also have "\<dots> = promote valid ((k', v') # m) a"
        using True by (simp add: promote_Cons)
      finally show ?thesis unfolding p .
    qed
  qed
qed

lemma promote_twice: "promote valid m (promote valid m a) = promote valid m a"
proof (induction m arbitrary: a)
  case Nil
  show ?case by (simp add: promote_Nil)
next
  case (Cons p m)
  obtain k v where p: "p = (k, v)" by (cases p)
  show ?case
  proof (cases "1 < valid (hash v)")
    case False
    then show ?thesis unfolding p by (simp add: promote_Cons Cons.IH)
  next
    case True
    let ?a = "AList.update k v a"
    have present: "k \<in> fst ` set (promote valid m ?a)"
      using keys_promote [of ?a valid m] dom_update [of k v a] by blast
    have "promote valid m (AList.update k v (promote valid m ?a)) = promote valid m (promote valid m ?a)"
    proof (cases "\<exists>w. (k, w) \<in> set m \<and> 1 < valid (hash w)")
      case True
      then obtain w where "(k, w) \<in> set m" "1 < valid (hash w)" by blast
      from promote_overwritten [of k "promote valid m ?a" w m valid v, OF present this]
      show ?thesis .
    next
      case False
      then have "map_of (promote valid m ?a) k = map_of ?a k"
        by (intro map_of_promote_unpromoted) blast
      then have "map_of (promote valid m ?a) k = Some v"
        by (simp add: update_conv')
      then show ?thesis by (simp add: update_triv)
    qed
    with True show ?thesis unfolding p by (simp add: promote_Cons Cons.IH)
  qed
qed

subsection \<open>Active ports after pruning\<close>

lemma distinct_promote:
  "distinct (map fst a) \<Longrightarrow> distinct (map fst (promote valid m a))"
proof (induction m arbitrary: a)
  case Nil
  then show ?case by (simp add: promote_Nil)
next
  case (Cons p m)
  obtain k v where p: "p = (k, v)" by (cases p)
  show ?case unfolding p promote_Cons
    by (rule Cons.IH) (simp add: Cons.prems distinct_update)
qed

lemma set_promote:
  assumes dm: "distinct (map fst m)" and da: "distinct (map fst a)"
    and sub: "set a \<subseteq> set (filter (\<lambda>(pin, meta). 1 < valid (hash meta)) m)"
  shows "set (promote valid m a) = set (filter (\<lambda>(pin, meta). 1 < valid (hash meta)) m)"
proof -
  let ?P = "\<lambda>(pin, meta). 1 < valid (hash meta)"
  have df: "distinct (map fst (filter ?P m))"
    using dm by (rule distinct_map_filter)
  have "map_of (promote valid m a) k = map_of (filter ?P m) k" for k
  proof (cases "\<exists>v. (k, v) \<in> set m \<and> 1 < valid (hash v)")
    case True
    then obtain v where v: "(k, v) \<in> set m" "1 < valid (hash v)" by blast
    then have "(k, v) \<in> set (filter ?P m)" by simp
    with df have "map_of (filter ?P m) k = Some v" by simp
    with map_of_promote_hit [of m k v valid a, OF dm v] show ?thesis by simp
  next
    case False
    then have unpromoted: "\<And>w. (k, w) \<in> set m \<Longrightarrow> \<not> 1 < valid (hash w)" by blast
    have none: "map_of (filter ?P m) k = None"
      using False by (auto simp: map_of_eq_None_iff)
    have "map_of a k = None"
    proof (cases "map_of a k")
      case None
      then show ?thesis .
    next
      case (Some v)
      then have "(k, v) \<in> set a" by (rule map_of_SomeD)
      with sub have "(k, v) \<in> set m" "1 < valid (hash v)" by auto
      with False show ?thesis by blast
    qed
    with map_of_promote_unpromoted [of k m valid a, OF unpromoted] none show ?thesis by simp
  qed
  then have "map_of (promote valid m a) = map_of (filter ?P m)" by (rule ext)
  with map_of_inject_set [OF distinct_promote [OF da] df] show ?thesis by simp
qed

lemma set_promote_connected:
  assumes bound: "length (portHashes states) < 2 ^ 64"
    and dm: "distinct (map fst m)"
    and within: "activeWithin states a m"
  shows "set (promote (countHashes states) m a) = set (filter (connected states) m)
       \<and> distinct (map fst (promote (countHashes states) m a))"
proof -
  from within have da: "distinct (map fst a)"
    and sub: "set a \<subseteq> set (filter (connected states) m)"
    by (auto simp: activeWithin_def list_all_iff contains_set)
  note conn = filter_connected [OF bound, of m]
  from set_promote [OF dm da, of "countHashes states"] sub
  have "set (promote (countHashes states) m a) = set (filter (connected states) m)"
    unfolding conn by simp
  with distinct_promote [OF da] show ?thesis by simp
qed

subsection \<open>Pruning twice\<close>

lemma generateIO_twice: "generateIO valid (generateIO valid state) = generateIO valid state"
  by (simp add: generateIO_def promote_twice)

lemma map_generateIO_twice:
  "map (\<lambda>(name, state). (name, generateIO valid state))
     (map (\<lambda>(name, state). (name, generateIO valid state)) states)
   = map (\<lambda>(name, state). (name, generateIO valid state)) states"
  by (induction states) (auto simp: generateIO_twice)

section \<open>Properties of the synchronisation\<close>














lemmas sync_eval = computeStep_def presentStep_def mutationStep_def initialSync_def
  afterBarrierSchedule_def wholeMutationSchedule_def contendedSchedule_def
  numeral_eq_Suc

text \<open>
  The halt test of \<open>compute\<close> comes before \<open>computeWait\<close> is set: a call that has passed
  the test can poll the executors in its readiness barrier while \<open>func\<close> runs.
\<close>

lemma barrier_during_mutation:
  "map_option (\<lambda>s. (computePc s, mutationPc s, computeWait s))
     (runSchedule (replicate 3 (ComputeThread, Proceed) @ replicate 7 (MutationThread, Proceed)
        @ [(ComputeThread, Proceed), (ComputeThread, Repeat)]) initialSync)
   = Some (ComputeBarrier, MutationFunc, True)"
  by (simp add: sync_eval)

section \<open>Claims about pruning\<close>

text \<open>
  Claim C4, as amended. Take module maps in which every port that is active already is
  still a connected port of its module (in particular maps without active ports). Pruning
  then leaves a port of a compute module active if and only if its record hash is not zero
  and occurs more than once among the input and output ports of all compute modules; and a
  module left without active inputs and outputs is in neither \<open>validComputeModuleStates\<close>
  nor \<open>validPresentModuleStates\<close>.
\<close>

theorem removeInactive_active_iff_connected:
  assumes wf: "wellFormedMaps (computeModuleStates s)"
    and active: "activePortsConnected (computeModuleStates s)"
    and bound: "length (portHashes (computeModuleStates s)) < 2 ^ 64"
    and run: "removeInactive s = (r, s')"
    and mem: "(name, state) \<in> set (computeModuleStates s')"
  shows "set (activeInputs state) = set (filter (connected (computeModuleStates s)) (inputMap state))
       \<and> set (activeOutputs state) = set (filter (connected (computeModuleStates s)) (outputMap state))
       \<and> (isStale state \<longrightarrow>
             map_of (validComputeModuleStates s') name = None
           \<and> map_of (validPresentModuleStates s') name = None)"
proof -
  let ?valid = "countHashes (computeModuleStates s)"
  let ?states = "map (\<lambda>(name, state). (name, generateIO ?valid state)) (computeModuleStates s)"
  have s': "s' = s\<lparr>computeModuleStates := ?states,
      validComputeModuleStates := keepValid (staleModules ?states) ?states,
      validPresentModuleStates := keepValid (staleModules ?states) (presentModuleStates s)\<rparr>"
    using run by (simp add: removeInactive_def Let_def)
  from mem s' obtain old where old: "(name, old) \<in> set (computeModuleStates s)"
    and state: "state = generateIO ?valid old"
    by auto
  from wf old have dist: "distinct (map fst (inputMap old))" "distinct (map fst (outputMap old))"
    by (auto simp: wellFormedMaps_def list_all_iff)
  from active old
  have within: "activeWithin (computeModuleStates s) (activeInputs old) (inputMap old)"
    "activeWithin (computeModuleStates s) (activeOutputs old) (outputMap old)"
    by (auto simp: activePortsConnected_def list_all_iff)
  have ins: "set (activeInputs state) = set (filter (connected (computeModuleStates s)) (inputMap state))"
    using set_promote_connected [OF bound dist(1) within(1)]
    by (simp add: state generateIO_def)
  have outs: "set (activeOutputs state) = set (filter (connected (computeModuleStates s)) (outputMap state))"
    using set_promote_connected [OF bound dist(2) within(2)]
    by (simp add: state generateIO_def)
  have stale: "map_of (validComputeModuleStates s') name = None
      \<and> map_of (validPresentModuleStates s') name = None" if "isStale state"
  proof -
    from mem s' have "(name, state) \<in> set ?states" by simp
    from staleModules_contains [OF this that] show ?thesis
      by (simp add: s' map_of_keepValid_stale)
  qed
  from ins outs stale show ?thesis by blast
qed

theorem removeInactive_active_iff_connected_witness:
  "wellFormedMaps (computeModuleStates pruneExample)
   \<and> activePortsConnected (computeModuleStates pruneExample)
   \<and> length (portHashes (computeModuleStates pruneExample)) < 2 ^ 64
   \<and> map (\<lambda>(name, state). (name, map fst (activeInputs state), map fst (activeOutputs state)))
        (computeModuleStates (snd (removeInactive pruneExample)))
      = [(''src'', [], [''out'']), (''sink'', [''in''], []), (''idle'', [], [])]
   \<and> map_of (validComputeModuleStates (snd (removeInactive pruneExample))) ''idle'' = None
   \<and> map_of (validPresentModuleStates (snd (removeInactive pruneExample))) ''idle'' = None"
proof -
  note defs = pruneExample_def emptyScheduler_def newComputeState_def
  note eval = removeInactive_def Let_def countHashes_def countModule_def countRecord_def
    generateIO_def promote_def
  let ?idle = "newComputeState 3 CPU [] [(''out'', \<lparr>hash = 5, locale_hash = 50\<rparr>)]"
  have wf: "wellFormedMaps (computeModuleStates pruneExample)"
    by (simp add: wellFormedMaps_def defs)
  have active: "activePortsConnected (computeModuleStates pruneExample)"
    by (simp add: activePortsConnected_def activeWithin_def defs)
  have bound: "length (portHashes (computeModuleStates pruneExample)) < 2 ^ 64"
    by (simp add: portHashes_def defs)
  have run: "removeInactive pruneExample = (SUCCESS, snd (removeInactive pruneExample))"
    by (simp add: removeInactive_def Let_def)
  have mem: "(''idle'', ?idle) \<in> set (computeModuleStates (snd (removeInactive pruneExample)))"
    by (simp add: defs eval)
  have stale: "isStale ?idle"
    by (simp add: isStale_def newComputeState_def)
  have ports: "map (\<lambda>(name, state). (name, map fst (activeInputs state), map fst (activeOutputs state)))
        (computeModuleStates (snd (removeInactive pruneExample)))
      = [(''src'', [], [''out'']), (''sink'', [''in''], []), (''idle'', [], [])]"
    by (simp add: defs eval)
  from removeInactive_active_iff_connected [OF wf active bound run mem] stale
  have "map_of (validComputeModuleStates (snd (removeInactive pruneExample))) ''idle'' = None
      \<and> map_of (validPresentModuleStates (snd (removeInactive pruneExample))) ''idle'' = None"
    by simp
  with wf active bound ports show ?thesis by simp
qed

theorem removeInactive_zero_hash_counterexample:
  "count_list (portHashes (computeModuleStates zeroHashExample)) 0 = 2
   \<and> map (\<lambda>(name, state). (name, activeInputs state, activeOutputs state))
        (computeModuleStates (snd (removeInactive zeroHashExample)))
      = [(''src'', [], []), (''sink'', [], [])]"
  by (simp add: portHashes_def zeroHashExample_def emptyScheduler_def newComputeState_def
      removeInactive_def Let_def countHashes_def countModule_def countRecord_def
      generateIO_def promote_def)

text \<open>
  Claim C7. Pruning is idempotent: for every state of the scheduler, a second run of
  \<open>removeInactive\<close> straight after a first one returns the same result and the same state,
  so the active input and output maps and both maps of valid modules are those of the
  first run.
\<close>

theorem removeInactive_idempotent:
  "removeInactive (snd (removeInactive s)) = removeInactive s"
  by (simp add: removeInactive_def Let_def countHashes_generateIO map_generateIO_twice
      del: map_map)

theorem removeInactive_idempotent_witness:
  "removeInactive (snd (removeInactive chainRegistered)) = removeInactive chainRegistered
   \<and> map (\<lambda>(name, state). (name, map fst (activeInputs state), map fst (activeOutputs state)))
        (computeModuleStates (snd (removeInactive (snd (removeInactive chainRegistered)))))
      = map (\<lambda>(name, state). (name, map fst (activeInputs state), map fst (activeOutputs state)))
        (computeModuleStates (snd (removeInactive chainRegistered)))"
  using removeInactive_idempotent [of chainRegistered] by simp


section \<open>Claims about the dependency order\<close>

text \<open>
  Claim C1. Every run of \<open>arrangeDependencyOrder\<close> that returns success leaves in
  \<open>executionOrder\<close> a topological order of the valid compute modules, whatever order the
  ready queue is iterated in and whichever device-affinity choices the loop makes: every
  valid module occurs exactly once, and every locale hash a module consumes on an active
  input is produced by a module strictly before it. The module maps are as the scheduler
  builds them: names are unique, a locale hash has one producing port (\<open>moduleOutputCache\<close>
  holds one name per hash), and the counters stay below \<open>2 ^ 64\<close>.
\<close>

theorem executionOrder_topological:
  assumes names: "distinct (map fst (validComputeModuleStates s))"
    and single: "singleProducer (validComputeModuleStates s)"
    and bound: "releaseBound (validComputeModuleStates s)"
    and order: "queueOrderOK queueOrder"
    and run: "arrangeDependencyOrder queueOrder s = Some (SUCCESS, s')"
  shows "distinct (executionOrder s')
       \<and> set (executionOrder s') = fst ` set (validComputeModuleStates s)
       \<and> (\<forall>j h. j < length (executionOrder s') \<longrightarrow>
             consumes (validComputeModuleStates s) (executionOrder s' ! j) h \<longrightarrow>
             (\<exists>i<j. produces (validComputeModuleStates s) (executionOrder s' ! i) h))"
proof -
  from run obtain st where loop: "orderingLoop queueOrder (validComputeModuleStates s)
       (initialOrdering (validComputeModuleStates s)) = Some st"
    and len: "length (primitiveOrder st) = length (validComputeModuleStates s)"
    and eo: "executionOrder s' = primitiveOrder st"
    by (rule arrangeDependencyOrder_SUCCESS) simp
  from orderingLoop_final [OF names bound order loop]
  have inv: "orderingInvariant (validComputeModuleStates s) st" by simp
  have "distinct (executionOrder s')"
    using inv by (simp add: eo orderingInvariant_def)
  moreover have "set (executionOrder s') = fst ` set (validComputeModuleStates s)"
    unfolding eo by (rule complete_order [OF names inv len])
  moreover have "\<exists>i<j. produces (validComputeModuleStates s) (executionOrder s' ! i) h"
    if "j < length (executionOrder s')"
      "consumes (validComputeModuleStates s) (executionOrder s' ! j) h" for j h
    using producers_before [OF names single inv] that unfolding eo by blast
  ultimately show ?thesis by blast
qed

lemmas chain_eval = chainPruned_def chainExample_def emptyScheduler_def newComputeState_def
  removeInactive_def Let_def countHashes_def countModule_def countRecord_def
  generateIO_def promote_def staleModules_def isStale_def keepValid_def

lemmas arrange_eval = arrangeDependencyOrder_def orderingLoop.simps initialOrdering_def
  initialQueue_def initialDegrees_def emplace_def orderStep_def lookupState_def
  moduleInputCache_def moduleOutputCache_def moduleEdgesCache_def releaseConsumers_def
  decrement_def walkCluster.simps setCluster_def insertionOrder_def resultAndOrder_def

lemma chainPruned_valid:
  "validComputeModuleStates chainPruned =
     [(''A'', (newComputeState 1 CPU [] [(''out'', \<lparr>hash = 1, locale_hash = 10\<rparr>)])
                \<lparr>activeOutputs := [(''out'', \<lparr>hash = 1, locale_hash = 10\<rparr>)]\<rparr>),
      (''B'', (newComputeState 2 CUDA [(''in'', \<lparr>hash = 1, locale_hash = 10\<rparr>)]
                   [(''out'', \<lparr>hash = 2, locale_hash = 20\<rparr>)])
                \<lparr>activeInputs := [(''in'', \<lparr>hash = 1, locale_hash = 10\<rparr>)],
                 activeOutputs := [(''out'', \<lparr>hash = 2, locale_hash = 20\<rparr>)]\<rparr>),
      (''C'', (newComputeState 3 CPU [(''in'', \<lparr>hash = 2, locale_hash = 20\<rparr>)] [])
                \<lparr>activeInputs := [(''in'', \<lparr>hash = 2, locale_hash = 20\<rparr>)]\<rparr>)]"
  by (simp add: chain_eval)

lemma chainPruned_order:
  "resultAndOrder (arrangeDependencyOrder insertionOrder chainPruned)
     = Some (SUCCESS, [''A'', ''B'', ''C''])"
  by (simp add: chain_eval arrange_eval)

lemma chainPruned_hyps:
  "distinct (map fst (validComputeModuleStates chainPruned))"
  "singleProducer (validComputeModuleStates chainPruned)"
  "releaseBound (validComputeModuleStates chainPruned)"
  "namedModules (validComputeModuleStates chainPruned)"
  unfolding chainPruned_valid
  by (simp_all add: singleProducer_def outputHashes_def releaseBound_def targets_def
      moduleInputCache_def lookupState_def newComputeState_def namedModules_def)

lemma insertionOrder_ok: "queueOrderOK insertionOrder"
  by (simp add: queueOrderOK_def insertionOrder_def)

theorem executionOrder_topological_witness:
  "distinct (map fst (validComputeModuleStates chainPruned))
   \<and> singleProducer (validComputeModuleStates chainPruned)
   \<and> releaseBound (validComputeModuleStates chainPruned)
   \<and> queueOrderOK insertionOrder
   \<and> resultAndOrder (arrangeDependencyOrder insertionOrder chainPruned)
        = Some (SUCCESS, [''A'', ''B'', ''C''])
   \<and> consumes (validComputeModuleStates chainPruned) ''C'' 20
   \<and> (produces (validComputeModuleStates chainPruned) ''A'' 20
        \<or> produces (validComputeModuleStates chainPruned) ''B'' 20)"
proof -
  obtain r s' where run: "arrangeDependencyOrder insertionOrder chainPruned = Some (r, s')"
    using chainPruned_order by (auto simp: resultAndOrder_def)
  with chainPruned_order have r: "r = SUCCESS" and eo: "executionOrder s' = [''A'', ''B'', ''C'']"
    by (simp_all add: resultAndOrder_def)
  have cons: "consumes (validComputeModuleStates chainPruned) (executionOrder s' ! 2) 20"
    unfolding chainPruned_valid eo
    by (simp add: consumes_def lookupState_def newComputeState_def)
  from executionOrder_topological [OF chainPruned_hyps(1-3) insertionOrder_ok run [unfolded r]]
  have "\<forall>j h. j < length (executionOrder s') \<longrightarrow>
      consumes (validComputeModuleStates chainPruned) (executionOrder s' ! j) h \<longrightarrow>
      (\<exists>i<j. produces (validComputeModuleStates chainPruned) (executionOrder s' ! i) h)"
    by blast
  from this [rule_format, of 2 20] cons
  obtain i where "i < 2" "produces (validComputeModuleStates chainPruned) (executionOrder s' ! i) 20"
    by (auto simp: eo)
  then have "produces (validComputeModuleStates chainPruned) ''A'' 20
        \<or> produces (validComputeModuleStates chainPruned) ''B'' 20"
    unfolding eo by (cases i) (auto simp: less_Suc_eq)
  with chainPruned_hyps insertionOrder_ok chainPruned_order cons show ?thesis
    by (simp add: eo)
qed

text \<open>
  Claim C8, as amended. For a module map with unique, non-empty names and counters that
  stay below \<open>2 ^ 64\<close>, the primitive-ordering loop terminates for every iteration order of
  the ready queue; and after any number of passes, if the ready queue is not empty, the next
  pass selects a module and removes it from the queue, or it resets \<open>lastDevice\<close> and the
  pass after it selects and removes one: at most one reset precedes a selection.
\<close>

theorem orderingLoop_terminates_one_reset:
  assumes named: "namedModules valid"
    and bound: "releaseBound valid"
    and order: "queueOrderOK queueOrder"
  shows "(\<exists>t. orderingLoop queueOrder valid (initialOrdering valid) = Some t)
       \<and> (\<forall>k. queue (orderingAfter queueOrder valid k) \<noteq> [] \<longrightarrow>
             selectsModule queueOrder valid (orderingAfter queueOrder valid k)
           \<or> (resetsDevice queueOrder valid (orderingAfter queueOrder valid k)
              \<and> selectsModule queueOrder valid (orderingAfter queueOrder valid (Suc k))))"
proof -
  from named have d: "distinct (map fst valid)" by (simp add: namedModules_def)
  have "\<exists>t. orderingLoop queueOrder valid (initialOrdering valid) = Some t"
    by (rule orderingLoop_terminates [OF orderingInvariant_initial [OF d] named bound order])
  moreover have "selectsModule queueOrder valid (orderingAfter queueOrder valid k)
           \<or> (resetsDevice queueOrder valid (orderingAfter queueOrder valid k)
              \<and> selectsModule queueOrder valid (orderingAfter queueOrder valid (Suc k)))"
    if "queue (orderingAfter queueOrder valid k) \<noteq> []" for k
    using select_or_reset [OF orderingAfter_invariant [OF d bound order] named bound order that]
    by (simp add: orderingAfter_def)
  ultimately show ?thesis by blast
qed

theorem orderingLoop_terminates_one_reset_witness:
  "namedModules (validComputeModuleStates chainPruned)
   \<and> releaseBound (validComputeModuleStates chainPruned)
   \<and> queueOrderOK insertionOrder
   \<and> map_option primitiveOrder
        (orderingLoop insertionOrder (validComputeModuleStates chainPruned)
           (initialOrdering (validComputeModuleStates chainPruned))) = Some [''A'', ''B'', ''C'']
   \<and> queue (orderingAfter insertionOrder (validComputeModuleStates chainPruned) 1) = [''B'']
   \<and> lastDevice (orderingAfter insertionOrder (validComputeModuleStates chainPruned) 1) = CPU
   \<and> resetsDevice insertionOrder (validComputeModuleStates chainPruned)
        (orderingAfter insertionOrder (validComputeModuleStates chainPruned) 1)
   \<and> selectsModule insertionOrder (validComputeModuleStates chainPruned)
        (orderingAfter insertionOrder (validComputeModuleStates chainPruned) 2)"
proof -
  let ?valid = "validComputeModuleStates chainPruned"
  note main = orderingLoop_terminates_one_reset
    [OF chainPruned_hyps(4) chainPruned_hyps(3) insertionOrder_ok]
  have run: "map_option primitiveOrder
        (orderingLoop insertionOrder ?valid (initialOrdering ?valid)) = Some [''A'', ''B'', ''C'']"
    unfolding chainPruned_valid by (simp add: arrange_eval newComputeState_def)
  have after: "queue (orderingAfter insertionOrder ?valid 1) = [''B'']"
      "lastDevice (orderingAfter insertionOrder ?valid 1) = CPU"
    unfolding chainPruned_valid
    by (simp_all add: orderingAfter_def arrange_eval newComputeState_def)
  have reset: "resetsDevice insertionOrder ?valid (orderingAfter insertionOrder ?valid 1)"
    unfolding chainPruned_valid
    by (simp add: resetsDevice_def orderingAfter_def arrange_eval newComputeState_def)
  have not_select: "\<not> selectsModule insertionOrder ?valid (orderingAfter insertionOrder ?valid 1)"
    using reset by (auto simp: selectsModule_def resetsDevice_def)
  from main after(1) not_select
  have "selectsModule insertionOrder ?valid (orderingAfter insertionOrder ?valid (Suc 1))"
    by (metis list.distinct(1))
  with chainPruned_hyps insertionOrder_ok run after reset show ?thesis
    by (simp add: numeral_2_eq_2)
qed

theorem orderingLoop_empty_name_counterexample:
  "orderingLoop insertionOrder emptyNameExample (initialOrdering emptyNameExample) = None"
proof (cases "orderingLoop insertionOrder emptyNameExample (initialOrdering emptyNameExample)")
  case None
  then show ?thesis .
next
  case (Some t)
  have "queue (initialOrdering emptyNameExample) = [[]]"
    by (simp add: initialOrdering_def initialQueue_def emptyNameExample_def
        newComputeState_def emplace_def)
  with spin_on_empty_name [OF Some] show ?thesis by simp
qed

section \<open>Claims about the device runs\<close>

text \<open>
  Claim C5. After every run of \<open>arrangeDependencyOrder\<close> that returns success,
  \<open>deviceExecutionOrder\<close> splits \<open>executionOrder\<close> into non-empty runs such that every module
  of an entry carries the entry's device, neighbouring modules inside a run agree on device
  and cluster, and the last module of an entry differs from the first module of the next
  entry in device or cluster: a new entry starts exactly where the device or the cluster
  changes.
\<close>

theorem deviceExecutionOrder_runs:
  assumes "arrangeDependencyOrder queueOrder s = Some (SUCCESS, s')"
  shows "deviceRuns (validComputeModuleStates s') (deviceExecutionOrder s')
       \<and> concat (map snd (deviceExecutionOrder s')) = executionOrder s'"
proof -
  from assms obtain st :: OrderingLoop and valid' runs where
    split: "splitRuns valid' Device_None 0 (primitiveOrder st) [] = Some runs"
    and s': "s' = s\<lparr>executionOrder := primitiveOrder st, deviceExecutionOrder := runs,
             validComputeModuleStates := valid'\<rparr>"
    by (rule arrangeDependencyOrder_SUCCESS)
  from splitRuns_deviceRuns [OF split deviceRuns_Nil]
  show ?thesis by (simp add: s')
qed

theorem deviceExecutionOrder_runs_witness:
  "map_option (\<lambda>(r, s'). (r, deviceExecutionOrder s',
       deviceRuns (validComputeModuleStates s') (deviceExecutionOrder s')))
     (arrangeDependencyOrder insertionOrder chainPruned)
   = Some (SUCCESS, [(CPU, [''A'']), (CUDA, [''B'']), (CPU, [''C''])], True)"
proof -
  have eval: "map_option (\<lambda>(r, s'). (r, deviceExecutionOrder s'))
       (arrangeDependencyOrder insertionOrder chainPruned)
     = Some (SUCCESS, [(CPU, [''A'']), (CUDA, [''B'']), (CPU, [''C''])])"
    by (simp add: chain_eval arrange_eval)
  then obtain s' where run: "arrangeDependencyOrder insertionOrder chainPruned = Some (SUCCESS, s')"
    and runs: "deviceExecutionOrder s' = [(CPU, [''A'']), (CUDA, [''B'']), (CPU, [''C''])]"
    by auto
  from deviceExecutionOrder_runs [OF run] runs show ?thesis
    by (simp add: run)
qed

section \<open>Claims about the public operations\<close>

lemmas pipeline_eval = chainAB_def chainABC_def chainABState_def chainWithX_def
  chainWithXState_def chainWithCycle_def stateOf_def andThen_def
  addModule_def addModuleLocked_def calmEnvironment_def registerModule_def
  registerCompute_def rebuild_def checkSequenceValidity_def createExecutionGraphs_def
  instantiateGraph_def wireBlock_def NewGraph_def setWiredInput_def setWiredOutput_def
  setModule_def defaultComputeState_def

text \<open>
  Claim C3, evaluated on the device-boundary scenario of the spec: \<open>A\<close> (CPU) feeds \<open>B\<close>
  (CUDA), which feeds \<open>C\<close> (CPU). The second and third executors are adjacent and share
  locale hash 20 between wired outputs and wired inputs, yet it is externally wired on
  neither of them.
\<close>

theorem createExecutionGraphs_skips_adjacent_pair:
  "map_option (\<lambda>(r, s). (r, map graph_modules (graphs s),
       wiredOutputs (graphs s ! 1) \<inter> wiredInputs (graphs s ! 2),
       externallyWiredOutputs (graphs s ! 1), externallyWiredInputs (graphs s ! 2)))
     chainABC
   = Some (SUCCESS, [[1], [2], [3]], {20}, {}, {})"
  by (simp add: pipeline_eval chain_eval arrange_eval)

text \<open>
  Claim C9, as amended. \<open>addModule\<close> sets \<open>running\<close> before anything else and nothing
  resets it: after every \<open>addModule\<close> that returns, failed or not, the scheduler is
  running, so a later \<open>removeModule\<close> runs its locked body instead of returning early. If
  the existing executors were destroyed without error, the module's entries are inserted
  before the rebuild phases run and are still registered afterwards, whatever the rebuild
  returns.
\<close>

theorem addModule_no_rollback:
  assumes "addModule env name d inputs outputs cap present s = Some (r, s')"
  shows "running s'
       \<and> removeModule env other s' = removeModuleLocked env other s'
       \<and> (firstFailure (graphDestroy env) (graphs s) = SUCCESS \<longrightarrow>
            addModule env name d inputs outputs cap present s
              = rebuild env (registerModule name d inputs outputs cap present (s\<lparr>running := True\<rparr>))
          \<and> (\<forall>c. cap = Some c \<longrightarrow>
                (\<exists>state. map_of (computeModuleStates s') name = Some state
                   \<and> module state = c \<and> device state = d
                   \<and> inputMap state = inputs \<and> outputMap state = outputs))
          \<and> (\<forall>p. present = Some p \<longrightarrow>
                map_of (presentModuleStates s') name
                  = Some \<lparr>present_module = p, present_inputMap = inputs,
                          present_outputMap = outputs\<rparr>))"
proof -
  let ?s1 = "s\<lparr>running := True\<rparr>"
  let ?reg = "registerModule name d inputs outputs cap present ?s1"
  have run: "running s'"
  proof (cases "firstFailure (graphDestroy env) (graphs s) = SUCCESS")
    case True
    with assms have "rebuild env ?reg = Some (r, s')"
      by (simp add: addModule_def addModuleLocked_def)
    from rebuild_frame(1) [OF this] show ?thesis by simp
  next
    case False
    with assms show ?thesis
      by (auto simp: addModule_def addModuleLocked_def)
  qed
  then have remove: "removeModule env other s' = removeModuleLocked env other s'"
    by (simp add: removeModule_def)
  have registered:
    "addModule env name d inputs outputs cap present s = rebuild env ?reg
     \<and> (\<forall>c. cap = Some c \<longrightarrow>
                (\<exists>state. map_of (computeModuleStates s') name = Some state
                   \<and> module state = c \<and> device state = d
                   \<and> inputMap state = inputs \<and> outputMap state = outputs))
     \<and> (\<forall>p. present = Some p \<longrightarrow>
                map_of (presentModuleStates s') name
                  = Some \<lparr>present_module = p, present_inputMap = inputs,
                          present_outputMap = outputs\<rparr>)"
    if ok: "firstFailure (graphDestroy env) (graphs s) = SUCCESS"
  proof -
    from ok have eq: "addModule env name d inputs outputs cap present s = rebuild env ?reg"
      by (simp add: addModule_def addModuleLocked_def)
    with assms have reb: "rebuild env ?reg = Some (r, s')" by simp
    have comp: "\<exists>state. map_of (computeModuleStates s') name = Some state
                   \<and> module state = c \<and> device state = d
                   \<and> inputMap state = inputs \<and> outputMap state = outputs"
      if "cap = Some c" for c
      using rebuild_keeps_registration [OF reb, of name] that
      by (simp add: registerModule_compute)
    have pres: "map_of (presentModuleStates s') name
                  = Some \<lparr>present_module = p, present_inputMap = inputs,
                          present_outputMap = outputs\<rparr>"
      if "present = Some p" for p
      using that by (simp add: rebuild_frame(2) [OF reb] registerModule_present)
    from eq comp pres show ?thesis by blast
  qed
  from run remove registered show ?thesis by blast
qed

lemma firstFailure_calm [simp]: "firstFailure (\<lambda>graph. SUCCESS) gs = SUCCESS"
  by (induction gs) auto

theorem addModule_no_rollback_witness:
  "map_option (\<lambda>(r, s'). (r, running s',
       map_option module (map_of (computeModuleStates s') ''Y''),
       removeModule calmEnvironment ''Y'' s' = removeModuleLocked calmEnvironment ''Y'' s'))
     chainWithCycle
   = Some (FATAL, True, Some 5, True)"
proof -
  have eval: "map_option fst chainWithCycle = Some FATAL"
    by (simp add: pipeline_eval chain_eval arrange_eval)
  then obtain s' where run: "chainWithCycle = Some (FATAL, s')" by auto
  have destroyed: "firstFailure (graphDestroy calmEnvironment) (graphs chainWithXState) = SUCCESS"
    by (simp add: calmEnvironment_def)
  from addModule_no_rollback [OF run [unfolded chainWithCycle_def], of "''Y''"] destroyed
  show ?thesis by (auto simp: run)
qed

theorem addModule_destroy_failure_counterexample:
  "map_option (\<lambda>(r, s'). (r, running s', map_of (computeModuleStates s') ''C''))
     (addModule brokenDestroy ''C'' CPU [(''in'', \<lparr>hash = 2, locale_hash = 20\<rparr>)] []
        (Some 3) None chainABState)
   = Some (ERROR, True, None)"
  by (simp add: brokenDestroy_def pipeline_eval chain_eval arrange_eval)

text \<open>
  Claim C6, as amended. For every invocation of \<open>compute\<close> with a non-empty graphs list, no
  halt pending and a readiness barrier that completes with \<open>SUCCESS\<close>: if every executor's
  \<open>compute\<close> returns \<open>SUCCESS\<close>, the call returns \<open>SUCCESS\<close> after invoking all of them; and
  if some executor's result is not \<open>SUCCESS\<close>, the pass stops at the first such executor,
  and the call returns \<open>SUCCESS\<close> when that result is \<open>TIMEOUT\<close> or \<open>SKIP\<close> and the result
  itself otherwise.
\<close>

theorem compute_result:
  assumes nonempty: "graphs s \<noteq> []"
    and nohalt: "\<not> halt"
    and ready: "readinessBarrier (graphComputeReady env) (graphs s) (graphs s) 0 = Some SUCCESS"
  shows "(list_all (\<lambda>graph. graphCompute env graph = SUCCESS) (graphs s) \<longrightarrow>
            compute env halt s = Some (SUCCESS, graphs s))
       \<and> (\<forall>failing. find (\<lambda>graph. graphCompute env graph \<noteq> SUCCESS) (graphs s) = Some failing \<longrightarrow>
            compute env halt s
              = Some (if graphCompute env failing = TIMEOUT \<or> graphCompute env failing = SKIP
                      then SUCCESS else graphCompute env failing,
                      takeWhile (\<lambda>graph. graphCompute env graph = SUCCESS) (graphs s) @ [failing]))"
proof -
  have all: "compute env halt s = Some (SUCCESS, graphs s)"
    if "list_all (\<lambda>graph. graphCompute env graph = SUCCESS) (graphs s)"
  proof -
    from that have "find (\<lambda>graph. graphCompute env graph \<noteq> SUCCESS) (graphs s) = None"
      by (simp add: find_None_iff list_all_iff)
    with nonempty nohalt ready show ?thesis
      by (simp add: compute_def computePass_eq)
  qed
  have first: "compute env halt s
      = Some (if graphCompute env failing = TIMEOUT \<or> graphCompute env failing = SKIP
              then SUCCESS else graphCompute env failing,
              takeWhile (\<lambda>graph. graphCompute env graph = SUCCESS) (graphs s) @ [failing])"
    if found: "find (\<lambda>graph. graphCompute env graph \<noteq> SUCCESS) (graphs s) = Some failing"
    for failing
  proof -
    from found have "graphCompute env failing \<noteq> SUCCESS"
      by (auto simp: find_Some_iff)
    with nonempty nohalt ready found show ?thesis
      by (simp add: compute_def computePass_eq)
  qed
  from all first show ?thesis by blast
qed

theorem compute_result_witness:
  "graphs chainABState \<noteq> []
   \<and> readinessBarrier (graphComputeReady underrunEnvironment)
        (graphs chainABState) (graphs chainABState) 0 = Some SUCCESS
   \<and> map (graphCompute underrunEnvironment) (graphs chainABState) = [SUCCESS, SKIP]
   \<and> compute underrunEnvironment False chainABState = Some (SUCCESS, graphs chainABState)"
proof -
  have graphs: "graphs chainABState =
     [\<lparr>graph_device = CPU, wiredInputs = {}, wiredOutputs = {10},
       externallyWiredInputs = {}, externallyWiredOutputs = {10}, graph_modules = [1]\<rparr>,
      \<lparr>graph_device = CUDA, wiredInputs = {10}, wiredOutputs = {},
       externallyWiredInputs = {10}, externallyWiredOutputs = {}, graph_modules = [2]\<rparr>]"
    by (simp add: pipeline_eval chain_eval arrange_eval)
  have nonempty: "graphs chainABState \<noteq> []"
    by (simp add: graphs)
  have ready: "readinessBarrier (graphComputeReady underrunEnvironment)
        (graphs chainABState) (graphs chainABState) 0 = Some SUCCESS"
    unfolding graphs
    by (simp add: readinessBarrier.simps underrunEnvironment_def calmEnvironment_def)
  have results: "map (graphCompute underrunEnvironment) (graphs chainABState) = [SUCCESS, SKIP]"
    unfolding graphs by (simp add: underrunEnvironment_def calmEnvironment_def)
  have found: "find (\<lambda>graph. graphCompute underrunEnvironment graph \<noteq> SUCCESS) (graphs chainABState)
      = Some (graphs chainABState ! 1)"
    unfolding graphs by (simp add: underrunEnvironment_def calmEnvironment_def)
  have skip: "graphCompute underrunEnvironment (graphs chainABState ! 1) = SKIP"
    unfolding graphs by (simp add: underrunEnvironment_def calmEnvironment_def)
  have invoked: "takeWhile (\<lambda>graph. graphCompute underrunEnvironment graph = SUCCESS)
      (graphs chainABState) @ [graphs chainABState ! 1] = graphs chainABState"
    unfolding graphs by (simp add: underrunEnvironment_def calmEnvironment_def)
  from compute_result [OF nonempty _ ready, of False] found skip invoked
  have "compute underrunEnvironment False chainABState = Some (SUCCESS, graphs chainABState)"
    by simp
  with nonempty ready results show ?thesis by simp
qed

theorem compute_barrier_failure_counterexample:
  "graphs chainABState \<noteq> []
   \<and> map (graphCompute brokenReady) (graphs chainABState) = [SUCCESS, SUCCESS]
   \<and> compute brokenReady False chainABState = Some (ERROR, [])"
proof -
  have graphs: "graphs chainABState =
     [\<lparr>graph_device = CPU, wiredInputs = {}, wiredOutputs = {10},
       externallyWiredInputs = {}, externallyWiredOutputs = {10}, graph_modules = [1]\<rparr>,
      \<lparr>graph_device = CUDA, wiredInputs = {10}, wiredOutputs = {},
       externallyWiredInputs = {10}, externallyWiredOutputs = {}, graph_modules = [2]\<rparr>]"
    by (simp add: pipeline_eval chain_eval arrange_eval)
  show ?thesis
    by (simp add: graphs compute_def readinessBarrier.simps brokenReady_def calmEnvironment_def)
qed

text \<open>
  Claim C2, as amended. If the active module graph, in which every locale hash has one
  producing port, contains a dependency cycle, the ordering loop ends with
  \<open>|executionOrder| \<noteq> |validComputeModuleStates|\<close>, \<open>arrangeDependencyOrder\<close> returns
  \<open>FATAL\<close>, and \<open>addModule\<close> and \<open>removeModule\<close> return that result; the executor
  assembly is not reached, so no executor is created.
\<close>

theorem rebuild_detects_cycle:
  assumes order: "queueOrderOK (readyQueueOrder env)"
    and named: "namedModules (validComputeModuleStates (snd (removeInactive t)))"
    and single: "singleProducer (validComputeModuleStates (snd (removeInactive t)))"
    and bound: "releaseBound (validComputeModuleStates (snd (removeInactive t)))"
    and cyc: "cyclic (validComputeModuleStates (snd (removeInactive t)))"
  shows "\<exists>s'. rebuild env t = Some (FATAL, s')
       \<and> length (executionOrder s') \<noteq> length (validComputeModuleStates s')
       \<and> set (graphs s') \<subseteq> set (graphs t)
       \<and> (\<forall>s name d inputs outputs cap present.
             firstFailure (graphDestroy env) (graphs s) = SUCCESS
             \<and> t = registerModule name d inputs outputs cap present (s\<lparr>running := True\<rparr>)
             \<longrightarrow> addModule env name d inputs outputs cap present s = Some (FATAL, s'))
       \<and> (\<forall>s name.
             running s \<and> firstFailure (graphDestroy env) (graphs s) = SUCCESS
             \<and> t = eraseModule name s
             \<longrightarrow> removeModule env name s = Some (FATAL, s'))"
proof -
  obtain s1 where pruned: "removeInactive t = (SUCCESS, s1)"
    using removeInactive_frame(5) [of t] by (cases "removeInactive t") simp
  then have s1: "snd (removeInactive t) = s1" by simp
  from arrangeDependencyOrder_cyclic [OF named single bound order cyc]
  obtain s' where arr: "arrangeDependencyOrder (readyQueueOrder env) s1 = Some (FATAL, s')"
    and len: "length (executionOrder s') \<noteq> length (validComputeModuleStates s')"
    and graphs: "graphs s' = graphs s1"
    unfolding s1 by blast
  have reb: "rebuild env t = Some (FATAL, s')"
    by (simp add: rebuild_def pruned arr)
  have "graphs s1 = graphs t"
    using removeInactive_frame(2) [of t] by (simp add: s1)
  with graphs have sub: "set (graphs s') \<subseteq> set (graphs t)"
    by simp
  have add: "\<forall>s name d inputs outputs cap present.
             firstFailure (graphDestroy env) (graphs s) = SUCCESS
             \<and> t = registerModule name d inputs outputs cap present (s\<lparr>running := True\<rparr>)
             \<longrightarrow> addModule env name d inputs outputs cap present s = Some (FATAL, s')"
  proof (intro allI impI, elim conjE)
    fix s name d inputs outputs cap present
    assume ok: "firstFailure (graphDestroy env) (graphs s) = SUCCESS"
      and t: "t = registerModule name d inputs outputs cap present (s\<lparr>running := True\<rparr>)"
    have "addModule env name d inputs outputs cap present s = rebuild env t"
      unfolding t using ok by (simp add: addModule_def addModuleLocked_def)
    with reb show "addModule env name d inputs outputs cap present s = Some (FATAL, s')"
      by simp
  qed
  have remove: "\<forall>s name.
             running s \<and> firstFailure (graphDestroy env) (graphs s) = SUCCESS
             \<and> t = eraseModule name s
             \<longrightarrow> removeModule env name s = Some (FATAL, s')"
  proof (intro allI impI, elim conjE)
    fix s name
    assume run: "running s" and ok: "firstFailure (graphDestroy env) (graphs s) = SUCCESS"
      and t: "t = eraseModule name s"
    have "removeModule env name s = rebuild env t"
      unfolding t using run ok by (simp add: removeModule_def removeModuleLocked_def)
    with reb show "removeModule env name s = Some (FATAL, s')" by simp
  qed
  show ?thesis
    by (intro exI [of _ s'] conjI reb len sub add remove)
qed

lemma cyclePruned_names_ports:
  "map (\<lambda>(name, state). (name, map (locale_hash \<circ> snd) (activeInputs state),
      map (locale_hash \<circ> snd) (activeOutputs state))) cyclePruned
   = [(''A'', [], [10]), (''B'', [10], [20]), (''C'', [20], []),
      (''X'', [80], [90]), (''Y'', [90], [80])]"
  by (simp add: cyclePruned_def cycleRegistered_def pipeline_eval chain_eval arrange_eval)

lemma cyclePruned_edges:
  "dependencyEdges cyclePruned
   = [(''A'', ''B''), (''B'', ''C''), (''X'', ''Y''), (''Y'', ''X'')]"
  by (simp add: dependencyEdges_def feeds_def
      cyclePruned_def cycleRegistered_def pipeline_eval chain_eval arrange_eval)

theorem rebuild_detects_cycle_witness:
  "queueOrderOK (readyQueueOrder calmEnvironment)
   \<and> namedModules cyclePruned \<and> singleProducer cyclePruned \<and> releaseBound cyclePruned
   \<and> cyclic cyclePruned
   \<and> map_option fst chainWithCycle = Some FATAL
   \<and> map_option fst (rebuild calmEnvironment cycleRegistered) = Some FATAL"
proof -
  have order: "queueOrderOK (readyQueueOrder calmEnvironment)"
    by (simp add: calmEnvironment_def insertionOrder_ok)
  have named: "namedModules cyclePruned"
    by (simp add: namedModules_def
        cyclePruned_def cycleRegistered_def pipeline_eval chain_eval arrange_eval)
  have single: "singleProducer cyclePruned"
    by (simp add: singleProducer_def outputHashes_def
        cyclePruned_def cycleRegistered_def pipeline_eval chain_eval arrange_eval)
  have bound: "releaseBound cyclePruned"
    by (simp add: releaseBound_def targets_def
        cyclePruned_def cycleRegistered_def pipeline_eval chain_eval arrange_eval)
  have "(''X'', ''Y'') \<in> set (dependencyEdges cyclePruned)"
    "(''Y'', ''X'') \<in> set (dependencyEdges cyclePruned)"
    by (simp_all add: cyclePruned_edges)
  then have "(''X'', ''X'') \<in> (set (dependencyEdges cyclePruned))\<^sup>+"
    by (rule trancl.intros(2) [OF trancl.intros(1)])
  then have cyc: "cyclic cyclePruned"
    unfolding cyclic_def by blast
  have destroyed: "firstFailure (graphDestroy calmEnvironment) (graphs chainWithXState) = SUCCESS"
    by (simp add: calmEnvironment_def)
  from rebuild_detects_cycle [of calmEnvironment cycleRegistered, folded cyclePruned_def,
      OF order named single bound cyc]
  obtain s' where reb: "rebuild calmEnvironment cycleRegistered = Some (FATAL, s')"
    and add: "\<And>s name d inputs outputs cap present.
      firstFailure (graphDestroy calmEnvironment) (graphs s) = SUCCESS
      \<and> cycleRegistered = registerModule name d inputs outputs cap present (s\<lparr>running := True\<rparr>)
      \<Longrightarrow> addModule calmEnvironment name d inputs outputs cap present s = Some (FATAL, s')"
    by blast
  from add [of chainWithXState] destroyed
  have run: "chainWithCycle = Some (FATAL, s')"
    unfolding chainWithCycle_def cycleRegistered_def by blast
  have result: "map_option fst chainWithCycle = Some FATAL"
    unfolding run by simp
  from reb have rebuilt: "map_option fst (rebuild calmEnvironment cycleRegistered) = Some FATAL"
    by simp
  show ?thesis
    by (intro conjI order named single bound cyc result rebuilt)
qed

theorem rebuild_cycle_counterexample:
  "map_option (\<lambda>(r, s'). (r, length (graphs s'), length (executionOrder s'),
       length (validComputeModuleStates s')))
     chainWithCycle
   = Some (FATAL, 3, 3, 5)
   \<and> dependencyEdges cyclePruned
       = [(''A'', ''B''), (''B'', ''C''), (''X'', ''Y''), (''Y'', ''X'')]"
proof -
  have "map_option (\<lambda>(r, s'). (r, length (graphs s'), length (executionOrder s'),
       length (validComputeModuleStates s')))
     chainWithCycle
   = Some (FATAL, 3, 3, 5)"
    by (simp add: pipeline_eval chain_eval arrange_eval)
  with cyclePruned_edges show ?thesis by simp
qed

section \<open>Claims about the synchronisation\<close>




end
